theory Spec2Isabelle
  imports Main "HOL-Library.Char_ord" "HOL-Library.List_Lexorder" "HOL-Library.AList"
begin

text \<open>
  A shallow embedding of \<open>organizer_safe.py\<close>, the rule-driven organizer of a download
  directory: rule matching, the expansion of path and file-name templates, the candidate
  filter, the collision-safe movers, the marker of managed directories, the sweep of
  unmanaged directories and one pass over the watch directory. The definitions come
  first and follow the source function by function; the properties follow.
\<close>

section \<open>Strings as Python's \<open>str\<close> methods use them\<close>

text \<open>
  A \<open>str\<close> is a \<^typ>\<open>string\<close>; the characters are bytes, so the case mapping below is
  the ASCII part of \<open>str.lower\<close>.
\<close>

definition upper_letters :: string where
  "upper_letters = ''ABCDEFGHIJKLMNOPQRSTUVWXYZ''"

definition lower_letters :: string where
  "lower_letters = ''abcdefghijklmnopqrstuvwxyz''"

definition lower_char :: "char \<Rightarrow> char" where
  "lower_char c = (case map_of (zip upper_letters lower_letters) c of Some d \<Rightarrow> d | None \<Rightarrow> c)"

definition lower :: "string \<Rightarrow> string" where
  "lower s = map lower_char s"

text \<open>\<open>s.startswith(p)\<close> and \<open>s.endswith(p)\<close>.\<close>

definition startswith :: "string \<Rightarrow> string \<Rightarrow> bool" where
  "startswith s p = (take (length p) s = p)"

definition endswith :: "string \<Rightarrow> string \<Rightarrow> bool" where
  "endswith s p = (length p \<le> length s \<and> drop (length s - length p) s = p)"

text \<open>\<open>s.lstrip(".")\<close>.\<close>

definition lstrip_dot :: "string \<Rightarrow> string" where
  "lstrip_dot s = dropWhile (\<lambda>c. c = CHR ''.'') s"

text \<open>\<open>k in s\<close> for two strings: \<open>k\<close> occurs in \<open>s\<close> as a substring.\<close>

fun contains :: "string \<Rightarrow> string \<Rightarrow> bool" where
  "contains [] k = (k = [])"
| "contains (c # cs) k = (startswith (c # cs) k \<or> contains cs k)"

text \<open>
  \<open>s.replace(old, new)\<close>: the occurrences of \<open>old\<close> are replaced from left to right
  without overlap; an empty \<open>old\<close> inserts \<open>new\<close> before every character and at the end.
\<close>

fun replace :: "string \<Rightarrow> string \<Rightarrow> string \<Rightarrow> string" where
  "replace old new [] = (if old = [] then new else [])"
| "replace old new (c # cs) =
     (if old = [] then new @ c # replace old new cs
      else if startswith (c # cs) old then new @ replace old new (drop (length old - 1) cs)
      else c # replace old new cs)"

text \<open>\<open>for k, v in repl.items(): s = s.replace(k, v)\<close>, in the dictionary's insertion order.\<close>

fun replace_all :: "(string \<times> string) list \<Rightarrow> string \<Rightarrow> string" where
  "replace_all [] s = s"
| "replace_all ((k, v) # kvs) s = replace_all kvs (replace k v s)"

text \<open>\<open>s.rfind(c)\<close> for a character: the last index of \<open>c\<close>, or \<open>-1\<close>.\<close>

fun rfind :: "string \<Rightarrow> char \<Rightarrow> int" where
  "rfind [] c = -1"
| "rfind (x # xs) c =
     (let r = rfind xs c in if r \<noteq> -1 then r + 1 else if x = c then 0 else -1)"

text \<open>The decimal rendering \<open>f"{i}"\<close> of a natural number.\<close>

definition digit_char :: "nat \<Rightarrow> char" where
  "digit_char d = ''0123456789'' ! d"

fun str_nat :: "nat \<Rightarrow> string" where
  "str_nat n = (if n < 10 then [digit_char n] else str_nat (n div 10) @ [digit_char (n mod 10)])"

declare str_nat.simps [simp del]

section \<open>Paths as \<open>pathlib\<close> has them (POSIX flavour)\<close>

text \<open>
  A path is the tuple \<open>Path.parts\<close>: the components in order, with the root \<open>/\<close> (or
  \<open>//\<close>) as the first component of an absolute path. Parsing a string splits it at
  \<open>/\<close> and drops empty components and \<open>.\<close> components; \<open>..\<close> is kept.
\<close>

type_synonym path = "string list"

fun split_slash :: "string \<Rightarrow> string list" where
  "split_slash [] = [[]]"
| "split_slash (c # cs) =
     (if c = CHR ''/'' then [] # split_slash cs
      else (case split_slash cs of [] \<Rightarrow> [[c]] | w # ws \<Rightarrow> (c # w) # ws))"

definition segments :: "string \<Rightarrow> string list" where
  "segments s = filter (\<lambda>w. w \<noteq> [] \<and> w \<noteq> ''.'') (split_slash s)"

definition root_of :: "string \<Rightarrow> string" where
  "root_of s =
     (if startswith s ''//'' \<and> \<not> startswith s ''///'' then ''//''
      else if startswith s ''/'' then ''/''
      else [])"

definition is_root :: "string \<Rightarrow> bool" where
  "is_root w = (w = ''/'' \<or> w = ''//'')"

definition is_absolute :: "path \<Rightarrow> bool" where
  "is_absolute p = (case p of [] \<Rightarrow> False | w # _ \<Rightarrow> is_root w)"

text \<open>\<open>Path(s)\<close>.\<close>

definition Path :: "string \<Rightarrow> path" where
  "Path s = (if root_of s = [] then segments s else root_of s # segments s)"

text \<open>\<open>p / s\<close>: an absolute \<open>s\<close> replaces \<open>p\<close>.\<close>

definition joinpath :: "path \<Rightarrow> string \<Rightarrow> path" where
  "joinpath p s = (if root_of s = [] then p @ segments s else Path s)"

text \<open>\<open>p.name\<close>, \<open>p.suffix\<close> and \<open>p.stem\<close> (Python 3.10 to 3.13).\<close>

definition path_name :: "path \<Rightarrow> string" where
  "path_name p = (if p = [] \<or> (length p = 1 \<and> is_root (hd p)) then [] else last p)"

definition suffix_of :: "path \<Rightarrow> string" where
  "suffix_of p =
     (let name = path_name p; i = rfind name CHR ''.''
      in if 0 < i \<and> i < int (length name) - 1 then drop (nat i) name else [])"

definition stem_of :: "path \<Rightarrow> string" where
  "stem_of p =
     (let name = path_name p; i = rfind name CHR ''.''
      in if 0 < i \<and> i < int (length name) - 1 then take (nat i) name else name)"

text \<open>\<open>src.suffix.lower().lstrip(".")\<close>, as \<open>match_rule\<close> and \<open>build_target_name\<close> compute it.\<close>

definition ext_of :: "path \<Rightarrow> string" where
  "ext_of src = lstrip_dot (lower (suffix_of src))"

section \<open>Rules and the standard-library functions the organizer calls\<close>

text \<open>
  A rule of the configuration. A key that \<open>r.get(key, [])\<close> reads is a list (empty when
  absent), \<open>match_all\<close> is a flag, and the keys whose absence the code tells apart are
  options.
\<close>

record rule =
  rule_name :: string
  match_ext :: "string list"
  match_mime :: "string list"
  match_glob :: "string list"
  match_all :: bool
  to_dir :: "string option"
  rename :: "string option"
  ensure_unique :: "bool option"

text \<open>
  The functions of Python's standard library that the organizer calls and that depend on
  tables or on the process environment are parameters of the model:
  \<open>mimetypes.guess_type\<close> (its first result), \<open>fnmatch.fnmatch\<close>,
  \<open>os.path.expandvars\<close> and \<open>os.path.expanduser\<close>.
\<close>

record stdlib =
  guess_type :: "string \<Rightarrow> string option"
  fnmatch :: "string \<Rightarrow> string \<Rightarrow> bool"
  expandvars :: "string \<Rightarrow> string"
  expanduser :: "string \<Rightarrow> string"

section \<open>\<open>match_rule\<close>\<close>

text \<open>Which \<open>return r\<close> of the loop body fired.\<close>

datatype hit = ByExt | ByMime | ByGlob | ByAll

text \<open>Truthiness of \<open>mime\<close>: neither \<open>None\<close> nor the empty string.\<close>

definition truthy_mime :: "string option \<Rightarrow> bool" where
  "truthy_mime mime = (case mime of None \<Rightarrow> False | Some m \<Rightarrow> m \<noteq> [])"

text \<open>\<open>mime and mime.lower().startswith(pref)\<close>, the test of the inner loop.\<close>

definition mime_has_prefix :: "string option \<Rightarrow> string \<Rightarrow> bool" where
  "mime_has_prefix mime pref =
     (case mime of None \<Rightarrow> False | Some m \<Rightarrow> m \<noteq> [] \<and> startswith (lower m) pref)"

text \<open>The body of the loop over the rules, for one rule \<open>r\<close>; \<open>None\<close> when it falls through.\<close>

definition rule_hit :: "stdlib \<Rightarrow> string \<Rightarrow> string \<Rightarrow> string option \<Rightarrow> rule \<Rightarrow> hit option" where
  "rule_hit lib name ext mime r =
     (let exts = map lower (match_ext r) in
      if exts \<noteq> [] \<and> ext \<in> set exts then Some ByExt
      else let mp = map lower (match_mime r) in
      if mp \<noteq> [] \<and> truthy_mime mime \<and> list_ex (mime_has_prefix mime) mp
      then Some ByMime
      else if list_ex (\<lambda>g. fnmatch lib name g) (match_glob r) then Some ByGlob
      else if match_all r then Some ByAll
      else None)"

fun match_loop :: "stdlib \<Rightarrow> string \<Rightarrow> string \<Rightarrow> string option \<Rightarrow> rule list \<Rightarrow> rule option" where
  "match_loop lib name ext mime [] = None"
| "match_loop lib name ext mime (r # rs) =
     (case rule_hit lib name ext mime r of
        Some h \<Rightarrow> Some r
      | None \<Rightarrow> match_loop lib name ext mime rs)"

definition match_rule :: "stdlib \<Rightarrow> path \<Rightarrow> rule list \<Rightarrow> rule option" where
  "match_rule lib src rules =
     (let name = path_name src;
          ext = ext_of src;
          mime = guess_type lib name
      in match_loop lib name ext mime rules)"

text \<open>The four match predicates of a rule, each on its own.\<close>

definition ext_matches :: "path \<Rightarrow> rule \<Rightarrow> bool" where
  "ext_matches src r = (ext_of src \<in> set (map lower (match_ext r)))"

definition mime_matches :: "stdlib \<Rightarrow> path \<Rightarrow> rule \<Rightarrow> bool" where
  "mime_matches lib src r =
     (case guess_type lib (path_name src) of
        None \<Rightarrow> False
      | Some m \<Rightarrow> m \<noteq> [] \<and> (\<exists>pref \<in> set (match_mime r). startswith (lower m) (lower pref)))"

definition glob_matches :: "stdlib \<Rightarrow> path \<Rightarrow> rule \<Rightarrow> bool" where
  "glob_matches lib src r = (\<exists>g \<in> set (match_glob r). fnmatch lib (path_name src) g)"

definition rule_matches :: "stdlib \<Rightarrow> path \<Rightarrow> rule \<Rightarrow> bool" where
  "rule_matches lib src r =
     (ext_matches src r \<or> mime_matches lib src r \<or> glob_matches lib src r \<or> match_all r)"

section \<open>Timestamps and the two template expansions\<close>

text \<open>
  A \<open>datetime\<close>. \<open>strftime\<close> pads \<open>%m\<close>, \<open>%d\<close>, \<open>%H\<close>, \<open>%M\<close> and \<open>%S\<close> to two digits
  and \<open>%Y\<close> to four (for the years 1000 to 9999 every platform prints the same four
  digits).
\<close>

record datetime =
  year :: nat
  month :: nat
  day :: nat
  hour :: nat
  minute :: nat
  second :: nat
  microsecond :: nat

definition zfill :: "nat \<Rightarrow> string \<Rightarrow> string" where
  "zfill n s = replicate (n - length s) CHR ''0'' @ s"

definition fmt_Y :: "datetime \<Rightarrow> string" where
  "fmt_Y dt = zfill 4 (str_nat (year dt))"

definition fmt_m :: "datetime \<Rightarrow> string" where
  "fmt_m dt = zfill 2 (str_nat (month dt))"

definition fmt_d :: "datetime \<Rightarrow> string" where
  "fmt_d dt = zfill 2 (str_nat (day dt))"

definition fmt_date :: "datetime \<Rightarrow> string" where
  "fmt_date dt = fmt_Y dt @ fmt_m dt @ fmt_d dt"

definition fmt_time :: "datetime \<Rightarrow> string" where
  "fmt_time dt =
     zfill 2 (str_nat (hour dt)) @ zfill 2 (str_nat (minute dt)) @ zfill 2 (str_nat (second dt))"

text \<open>The placeholders of the two contexts, in the order of the dictionaries \<open>repl\<close>.\<close>

definition path_keys :: "string list" where
  "path_keys = [''{YYYY}'', ''{MM}'', ''{DD}'', ''{date}'', ''{time}'']"

definition name_keys :: "string list" where
  "name_keys = [''{stem}'', ''{ext}'', ''{date}'', ''{time}'', ''{counter}'']"

definition has_placeholder :: "string list \<Rightarrow> string \<Rightarrow> bool" where
  "has_placeholder keys s = list_ex (contains s) keys"

definition path_repl :: "datetime \<Rightarrow> (string \<times> string) list" where
  "path_repl dt = zip path_keys [fmt_Y dt, fmt_m dt, fmt_d dt, fmt_date dt, fmt_time dt]"

definition expand_path :: "stdlib \<Rightarrow> string \<Rightarrow> datetime \<Rightarrow> path" where
  "expand_path lib p dt = Path (expanduser lib (expandvars lib (replace_all (path_repl dt) p)))"

text \<open>\<open>f"{counter}"\<close> for an \<open>int\<close>.\<close>

definition str_int :: "int \<Rightarrow> string" where
  "str_int i = (if i < 0 then CHR ''-'' # str_nat (nat (- i)) else str_nat (nat i))"

definition name_repl :: "path \<Rightarrow> datetime \<Rightarrow> int \<Rightarrow> (string \<times> string) list" where
  "name_repl src dt counter =
     zip name_keys [stem_of src, ext_of src, fmt_date dt, fmt_time dt,
                    if counter \<noteq> 0 then str_int counter else []]"

text \<open>The characters of \<open>'<>:"/\\|?*'\<close> (\<open>0x22\<close> is the double quote, \<open>0x5C\<close> the backslash).\<close>

definition bad_chars :: string where
  "bad_chars = [CHR ''<'', CHR ''>'', CHR '':'', CHR 0x22, CHR ''/'', CHR 0x5C, CHR ''|'',
                CHR ''?'', CHR ''*'']"

text \<open>\<open>for bad in ...: name = name.replace(bad, "_")\<close>.\<close>

fun sanitize :: "string \<Rightarrow> string \<Rightarrow> string" where
  "sanitize [] name = name"
| "sanitize (bad # bads) name = sanitize bads (replace [bad] ''_'' name)"

text \<open>\<open>rule.get("rename") or "{stem}"\<close>: an absent or empty template is \<open>{stem}\<close>.\<close>

definition rename_or_stem :: "rule \<Rightarrow> string" where
  "rename_or_stem r =
     (case rename r of None \<Rightarrow> ''{stem}'' | Some t \<Rightarrow> if t = [] then ''{stem}'' else t)"

definition build_target_name :: "path \<Rightarrow> rule \<Rightarrow> datetime \<Rightarrow> int \<Rightarrow> string" where
  "build_target_name src r dt counter =
     (let ext = ext_of src;
          name = replace_all (name_repl src dt counter) (rename_or_stem r);
          name = sanitize bad_chars name
      in name @ (if ext \<noteq> [] then CHR ''.'' # ext else []))"

section \<open>The filesystem\<close>

text \<open>
  The filesystem is an association list from absolute paths to nodes; a node is a
  regular file or a directory with its \<open>st_mtime\<close>, in whole seconds. The model has no
  symbolic links. A system call looks a path up as it is written: \<open>Path.resolve()\<close> removes
  \<open>..\<close> components, the lookup of a system call does not. A world is the
  filesystem together with the working directory of the process, the value of
  \<open>time.time()\<close> (which stands still during a pass) and the system calls made so far that
  list a directory or change the filesystem.
\<close>

datatype node = File int | Dir int

fun mtime :: "node \<Rightarrow> int" where
  "mtime (File t) = t"
| "mtime (Dir t) = t"

datatype syscall =
  Scandir path "path list" | Mkdir path | Rename path path | Utime path | Creat path

record world =
  files :: "(path \<times> node) list"
  cwd :: path
  clock :: int
  calls :: "syscall list"

datatype error = FileNotFoundError | FileExistsError | NotADirectoryError | ShutilError | KeyError

text \<open>The path a system call looks up: a relative path is taken from the working directory.\<close>

definition abs_path :: "world \<Rightarrow> path \<Rightarrow> path" where
  "abs_path w p = (if is_absolute p then p else cwd w @ p)"

text \<open>
  \<open>Path.resolve()\<close>. The filesystem has no symbolic links, so there is none to follow:
  the path is made absolute and every \<open>..\<close> removes the component before it, whether
  that component exists or not, and stays at the root, as \<open>os.path.realpath\<close> does.
\<close>

fun collapse_dotdot :: "path \<Rightarrow> path \<Rightarrow> path" where
  "collapse_dotdot acc [] = acc"
| "collapse_dotdot acc (c # cs) =
     (if c = ''..'' then collapse_dotdot (if length acc \<le> 1 then acc else butlast acc) cs
      else collapse_dotdot (acc @ [c]) cs)"

definition resolve :: "world \<Rightarrow> path \<Rightarrow> path" where
  "resolve w p = (case abs_path w p of [] \<Rightarrow> [] | r # cs \<Rightarrow> collapse_dotdot [r] cs)"

text \<open>
  A system call on a path fails with \<open>ENOTDIR\<close> when a proper ancestor of the path is a
  regular file.
\<close>

definition below_file :: "world \<Rightarrow> path \<Rightarrow> bool" where
  "below_file w p =
     (let k = abs_path w p
      in list_ex (\<lambda>i. case map_of (files w) (take i k) of Some (File t) \<Rightarrow> True | _ \<Rightarrow> False)
           [1 ..< length k])"

text \<open>
  \<open>Path.exists()\<close>, \<open>is_file()\<close>, \<open>is_dir()\<close> and \<open>stat().st_mtime\<close>. The first three
  answer \<open>False\<close> where the system call fails; \<open>stat()\<close> raises \<open>NotADirectoryError\<close> below
  a regular file and \<open>FileNotFoundError\<close> for a missing entry. On a well-formed
  filesystem no entry lies below a regular file, so that \<open>path_exists\<close> is \<open>False\<close> there
  without a test of its own.
\<close>

definition lookup :: "world \<Rightarrow> path \<Rightarrow> node option" where
  "lookup w p = map_of (files w) (abs_path w p)"

definition path_exists :: "world \<Rightarrow> path \<Rightarrow> bool" where
  "path_exists w p = (lookup w p \<noteq> None)"

definition is_file :: "world \<Rightarrow> path \<Rightarrow> bool" where
  "is_file w p =
     (\<not> below_file w p \<and> (case lookup w p of Some (File t) \<Rightarrow> True | _ \<Rightarrow> False))"

definition is_dir :: "world \<Rightarrow> path \<Rightarrow> bool" where
  "is_dir w p =
     (\<not> below_file w p \<and> (case lookup w p of Some (Dir t) \<Rightarrow> True | _ \<Rightarrow> False))"

definition stat_mtime :: "world \<Rightarrow> path \<Rightarrow> error + int" where
  "stat_mtime w p =
     (if below_file w p then Inl NotADirectoryError
      else (case lookup w p of None \<Rightarrow> Inl FileNotFoundError | Some n \<Rightarrow> Inr (mtime n)))"

text \<open>
  \<open>Path.iterdir()\<close>: the children of a directory as \<open>p / name\<close>, in the order of the
  association list; \<open>scandir\<close> is the same call, recorded. It raises as \<open>stat()\<close> does,
  and \<open>NotADirectoryError\<close> for a regular file.
\<close>

definition child_names :: "world \<Rightarrow> path \<Rightarrow> string list" where
  "child_names w p =
     (let base = abs_path w p
      in remdups (map last (filter (\<lambda>k. k \<noteq> [] \<and> butlast k = base) (map fst (files w)))))"

definition iterdir :: "world \<Rightarrow> path \<Rightarrow> error + path list" where
  "iterdir w p =
     (if below_file w p then Inl NotADirectoryError
      else (case lookup w p of
              None \<Rightarrow> Inl FileNotFoundError
            | Some (File t) \<Rightarrow> Inl NotADirectoryError
            | Some (Dir t) \<Rightarrow> Inr (map (\<lambda>n. p @ [n]) (child_names w p))))"

definition record_call :: "syscall \<Rightarrow> world \<Rightarrow> world" where
  "record_call c w = w\<lparr>calls := calls w @ [c]\<rparr>"

definition scandir :: "world \<Rightarrow> path \<Rightarrow> error + path list \<times> world" where
  "scandir w p =
     (case iterdir w p of
        Inl e \<Rightarrow> Inl e
      | Inr entries \<Rightarrow> Inr (entries, record_call (Scandir (abs_path w p) entries) w))"

text \<open>Writing a node; creating or removing an entry sets the \<open>st_mtime\<close> of its parent directory.\<close>

definition set_node :: "path \<Rightarrow> node \<Rightarrow> world \<Rightarrow> world" where
  "set_node k n w = w\<lparr>files := AList.update k n (files w)\<rparr>"

definition touch_parent :: "path \<Rightarrow> world \<Rightarrow> world" where
  "touch_parent k w =
     (case map_of (files w) (butlast k) of
        Some (Dir t) \<Rightarrow> set_node (butlast k) (Dir (clock w)) w
      | _ \<Rightarrow> w)"

text \<open>
  \<open>dst_dir.mkdir(parents=True, exist_ok=True)\<close>: every missing ancestor and the directory
  itself are created, from the root down; a regular file in the way raises
  \<open>NotADirectoryError\<close> (an ancestor) or \<open>FileExistsError\<close> (the path itself).
\<close>

fun mkdir_prefixes :: "path list \<Rightarrow> path \<Rightarrow> world \<Rightarrow> error + world" where
  "mkdir_prefixes [] key w = Inr w"
| "mkdir_prefixes (q # qs) key w =
     (case map_of (files w) q of
        Some (Dir t) \<Rightarrow> mkdir_prefixes qs key w
      | Some (File t) \<Rightarrow> Inl (if q = key then FileExistsError else NotADirectoryError)
      | None \<Rightarrow>
          mkdir_prefixes qs key
            (record_call (Mkdir q) (touch_parent q (set_node q (Dir (clock w)) w))))"

definition mkdir_parents :: "world \<Rightarrow> path \<Rightarrow> error + world" where
  "mkdir_parents w p =
     (let key = abs_path w p
      in mkdir_prefixes (map (\<lambda>i. take i key) [1 ..< Suc (length key)]) key w)"

text \<open>
  \<open>os.rename(s, d)\<close> where \<open>d\<close> is free or a regular file: the node at \<open>s\<close> and all that
  is below it move to \<open>d\<close> with their \<open>st_mtime\<close>; a regular file at \<open>d\<close> is replaced.
\<close>

definition rekey :: "path \<Rightarrow> path \<Rightarrow> path \<Rightarrow> path" where
  "rekey s d k = (if take (length s) k = s then d @ drop (length s) k else k)"

definition os_rename :: "path \<Rightarrow> path \<Rightarrow> world \<Rightarrow> world" where
  "os_rename s d w =
     record_call (Rename s d)
       (if s = d then w
        else touch_parent d (touch_parent s
               (w\<lparr>files := map (\<lambda>(k, n). (rekey s d k, n))
                              (filter (\<lambda>(k, n). k \<noteq> d) (files w))\<rparr>)))"

text \<open>
  \<open>shutil.move(src, dst)\<close> within one filesystem. A destination that is a directory
  receives the source under its own name, unless that name is taken. A directory is not
  moved below itself nor onto a regular file. The fallback of \<open>shutil.move\<close> that copies
  when \<open>os.rename\<close> fails is not modelled: a missing parent of the destination is an
  error here.
\<close>

definition shutil_move :: "world \<Rightarrow> path \<Rightarrow> path \<Rightarrow> error + world" where
  "shutil_move w src dst =
     (let s = abs_path w src; d = abs_path w dst in
      case map_of (files w) s of
        None \<Rightarrow> Inl FileNotFoundError
      | Some n \<Rightarrow>
          if is_dir w dst \<and> s = d then Inr (os_rename s d w)
          else
            let real_dst = (if is_dir w dst then d @ [path_name src] else d) in
            if is_dir w dst \<and> map_of (files w) real_dst \<noteq> None then Inl ShutilError
            else if s = real_dst then Inr (os_rename s real_dst w)
            else if \<not> (case map_of (files w) (butlast real_dst) of Some (Dir t) \<Rightarrow> True | _ \<Rightarrow> False)
              then Inl FileNotFoundError
            else (case n of
                    File t \<Rightarrow> Inr (os_rename s real_dst w)
                  | Dir t \<Rightarrow>
                      if take (length s) real_dst = s then Inl ShutilError
                      else if map_of (files w) real_dst \<noteq> None then Inl FileExistsError
                      else Inr (os_rename s real_dst w)))"

text \<open>\<open>os.path.splitext\<close>: the extension starts at the last dot of the last component, unless only dots precede it there.\<close>

definition splitext :: "string \<Rightarrow> string \<times> string" where
  "splitext p =
     (let sepIndex = rfind p CHR ''/''; dotIndex = rfind p CHR ''.'' in
      if dotIndex > sepIndex
         \<and> list_ex (\<lambda>c. c \<noteq> CHR ''.'') (drop (nat (sepIndex + 1)) (take (nat dotIndex) p))
      then (take (nat dotIndex) p, drop (nat dotIndex) p)
      else (p, []))"

subsection \<open>The probing loop of the movers\<close>

text \<open>\<open>f"{stem}_{i}{ext}"\<close>.\<close>

definition numbered :: "string \<Rightarrow> string \<Rightarrow> nat \<Rightarrow> string" where
  "numbered stem ext i = stem @ ''_'' @ str_nat i @ ext"

text \<open>How many of the names after index \<open>i\<close> exist.\<close>

definition probes_left :: "world \<Rightarrow> path \<Rightarrow> string \<Rightarrow> string \<Rightarrow> nat \<Rightarrow> nat" where
  "probes_left w d stem ext i = card {j. i < j \<and> path_exists w (joinpath d (numbered stem ext j))}"

text \<open>
  The loop \<open>while candidate.exists(): i += 1; candidate = dst_dir / f"{stem}_{i}{ext}"\<close>
  of both movers, entered with \<open>i = 0\<close> and the unsuffixed candidate.
\<close>

function unique_candidate :: "world \<Rightarrow> path \<Rightarrow> string \<Rightarrow> string \<Rightarrow> nat \<Rightarrow> path \<Rightarrow> path" where
  "unique_candidate w dst_dir stem ext i candidate =
     (if path_exists w candidate
      then unique_candidate w dst_dir stem ext (Suc i) (joinpath dst_dir (numbered stem ext (Suc i)))
      else candidate)"
  by pat_completeness auto

section \<open>Candidates, markers and the two movers\<close>

text \<open>
  \<open>is_candidate_file\<close>. Between \<open>path.is_file()\<close> and \<open>path.stat()\<close> other processes may
  change the filesystem: \<open>w\<close> is the world that \<open>is_file\<close> reads and \<open>w'\<close> the world that
  \<open>stat\<close> and \<open>time.time()\<close> read. Within a pass of the model nothing interferes and the two
  are the same world. \<open>FileNotFoundError\<close> is the one exception that is caught.
\<close>

definition is_candidate_file_between ::
  "world \<Rightarrow> world \<Rightarrow> path \<Rightarrow> int \<Rightarrow> string list \<Rightarrow> string list \<Rightarrow> error + bool" where
  "is_candidate_file_between w w' p min_age ign_ext ign_names =
     (if \<not> is_file w p then Inr False
      else if path_name p \<in> set ign_names then Inr False
      else if list_ex (\<lambda>ie. endswith (lower (path_name p)) (lower ie)) ign_ext then Inr False
      else (case stat_mtime w' p of
              Inl FileNotFoundError \<Rightarrow> Inr False
            | Inl e \<Rightarrow> Inl e
            | Inr m \<Rightarrow> Inr (clock w' - m \<ge> min_age)))"

definition is_candidate_file ::
  "world \<Rightarrow> path \<Rightarrow> int \<Rightarrow> string list \<Rightarrow> string list \<Rightarrow> error + bool" where
  "is_candidate_file w p min_age ign_ext ign_names =
     is_candidate_file_between w w p min_age ign_ext ign_names"

definition is_candidate_dir_between :: "world \<Rightarrow> world \<Rightarrow> path \<Rightarrow> int \<Rightarrow> error + bool" where
  "is_candidate_dir_between w w' p min_age =
     (if \<not> is_dir w p then Inr False
      else (case stat_mtime w' p of
              Inl FileNotFoundError \<Rightarrow> Inr False
            | Inl e \<Rightarrow> Inl e
            | Inr m \<Rightarrow> Inr (clock w' - m \<ge> min_age)))"

definition is_candidate_dir :: "world \<Rightarrow> path \<Rightarrow> int \<Rightarrow> error + bool" where
  "is_candidate_dir w p min_age = is_candidate_dir_between w w p min_age"

text \<open>
  \<open>mark_managed_dir\<close>: \<open>touch(exist_ok=True)\<close> sets the \<open>st_mtime\<close> of an existing marker
  and creates a missing one; where it fails (the directory is missing) the exception is
  swallowed.
\<close>

definition mark_managed_dir :: "world \<Rightarrow> path \<Rightarrow> string \<Rightarrow> world" where
  "mark_managed_dir w dst_dir marker_name =
     (let k = abs_path w (joinpath dst_dir marker_name) in
      case map_of (files w) k of
        Some (File t) \<Rightarrow> record_call (Utime k) (set_node k (File (clock w)) w)
      | Some (Dir t) \<Rightarrow> record_call (Utime k) (set_node k (Dir (clock w)) w)
      | None \<Rightarrow>
          (case map_of (files w) (butlast k) of
             Some (Dir t) \<Rightarrow> record_call (Creat k) (touch_parent k (set_node k (File (clock w)) w))
           | _ \<Rightarrow> w))"

definition is_managed_dir :: "world \<Rightarrow> path \<Rightarrow> string \<Rightarrow> bool" where
  "is_managed_dir w p marker_name = path_exists w (joinpath p marker_name)"

text \<open>\<open>move_with_unique\<close> and \<open>move_dir_with_unique\<close>; the result is the final path.\<close>

definition move_with_unique ::
  "world \<Rightarrow> path \<Rightarrow> path \<Rightarrow> string \<Rightarrow> bool \<Rightarrow> error + path \<times> world" where
  "move_with_unique w src dst_dir target_name ens_unique =
     (case mkdir_parents w dst_dir of
        Inl e \<Rightarrow> Inl e
      | Inr w1 \<Rightarrow>
          let candidate = joinpath dst_dir target_name;
              candidate =
                (if ens_unique
                 then (let (stem, ext) = splitext (path_name candidate)
                       in unique_candidate w1 dst_dir stem ext 0 candidate)
                 else candidate)
          in (case shutil_move w1 src candidate of
                Inl e \<Rightarrow> Inl e
              | Inr w2 \<Rightarrow> Inr (candidate, w2)))"

definition move_dir_with_unique :: "world \<Rightarrow> path \<Rightarrow> path \<Rightarrow> bool \<Rightarrow> error + path \<times> world" where
  "move_dir_with_unique w src dst_dir ens_unique =
     (case mkdir_parents w dst_dir of
        Inl e \<Rightarrow> Inl e
      | Inr w1 \<Rightarrow>
          let candidate = joinpath dst_dir (path_name src);
              candidate =
                (if ens_unique then unique_candidate w1 dst_dir (path_name src) [] 0 candidate
                 else candidate)
          in (case shutil_move w1 src candidate of
                Inl e \<Rightarrow> Inl e
              | Inr w2 \<Rightarrow> Inr (candidate, w2)))"

section \<open>The configuration and the exclusion set\<close>

text \<open>
  The configuration mapping. \<open>watch_dir\<close> is read with \<open>cfg["watch_dir"]\<close>; a key read with
  \<open>cfg.get(key, default)\<close> is an option when the default is not the empty list or
  \<open>False\<close>.
\<close>

record config =
  watch_dir :: string
  min_age_sec :: "int option"
  ignore_ext :: "string list"
  ignore_names :: "string list"
  managed_marker :: "string option"
  collect_unmanaged_dirs :: bool
  unmanaged_dirs_exclude :: "string list"
  unmanaged_dir_target :: "string option"
  rules :: "rule list"

definition get_min_age :: "config \<Rightarrow> int" where
  "get_min_age cfg = (case min_age_sec cfg of None \<Rightarrow> 10 | Some a \<Rightarrow> a)"

definition get_marker :: "config \<Rightarrow> string" where
  "get_marker cfg = (case managed_marker cfg of None \<Rightarrow> ''.dorg_managed'' | Some m \<Rightarrow> m)"

definition get_unmanaged_dir_target :: "config \<Rightarrow> string" where
  "get_unmanaged_dir_target cfg =
     (case unmanaged_dir_target cfg of
        None \<Rightarrow> ''%USERPROFILE%/Downloads/_Folders/{YYYY}-{MM}''
      | Some t \<Rightarrow> t)"

definition get_ensure_unique :: "rule \<Rightarrow> bool" where
  "get_ensure_unique r = (case ensure_unique r of None \<Rightarrow> True | Some b \<Rightarrow> b)"

text \<open>\<open>p.relative_to(base)\<close> (\<open>None\<close> for the \<open>ValueError\<close>) and \<open>p.parents\<close>.\<close>

definition relative_to :: "path \<Rightarrow> path \<Rightarrow> path option" where
  "relative_to p base = (if take (length base) p = base then Some (drop (length base) p) else None)"

definition parents :: "path \<Rightarrow> path list" where
  "parents p = map (\<lambda>i. take i p) (rev [(if is_absolute p then 1 else 0) ..< length p])"

text \<open>
  \<open>build_unmanaged_exclude_paths\<close>: the configured names under the watch directory, for
  every rule with a destination below the watch directory the first component of that
  destination, and the archive root. The set is a list here.
\<close>

definition rule_exclude :: "stdlib \<Rightarrow> datetime \<Rightarrow> world \<Rightarrow> path \<Rightarrow> rule \<Rightarrow> path list" where
  "rule_exclude lib now w wd r =
     (case to_dir r of
        None \<Rightarrow> []
      | Some td \<Rightarrow>
          if td = [] then []
          else (let p = resolve w (expand_path lib td now) in
                case relative_to p wd of
                  None \<Rightarrow> []
                | Some rel \<Rightarrow>
                    (case rel of [] \<Rightarrow> [] | part # rest \<Rightarrow> [resolve w (joinpath wd part)])))"

definition build_unmanaged_exclude_paths ::
  "stdlib \<Rightarrow> config \<Rightarrow> datetime \<Rightarrow> world \<Rightarrow> path \<Rightarrow> path list" where
  "build_unmanaged_exclude_paths lib cfg now w wdir =
     (let wd = resolve w wdir in
      map (\<lambda>name. resolve w (joinpath wd name)) (unmanaged_dirs_exclude cfg)
      @ concat (map (rule_exclude lib now w wd) (rules cfg))
      @ [resolve w (expand_path lib (get_unmanaged_dir_target cfg) now)])"

text \<open>\<open>_skip_by_excludes\<close>, the closure of \<open>process_once\<close>.\<close>

definition skip_by_excludes :: "world \<Rightarrow> path list \<Rightarrow> path \<Rightarrow> bool" where
  "skip_by_excludes w exclude_paths dr =
     (let dr = resolve w dr
      in list_ex (\<lambda>ep. dr = ep \<or> dr \<in> set (parents ep) \<or> ep \<in> set (parents dr)) exclude_paths)"

section \<open>One pass\<close>

text \<open>
  \<open>process_once\<close>. The state of the two loops is the counter \<open>processed\<close> and the world;
  \<open>file_step\<close> and \<open>dir_step\<close> are the loop bodies, an exception ends the pass. \<open>now\<close> is the
  value of \<open>datetime.now()\<close> read at the start.
\<close>

definition file_step ::
  "stdlib \<Rightarrow> config \<Rightarrow> datetime \<Rightarrow> bool \<Rightarrow> path \<Rightarrow> nat \<times> world \<Rightarrow> error + nat \<times> world" where
  "file_step lib cfg now dry p st =
     (let (processed, w) = st in
      case is_candidate_file w p (get_min_age cfg) (ignore_ext cfg) (ignore_names cfg) of
        Inl e \<Rightarrow> Inl e
      | Inr False \<Rightarrow> Inr st
      | Inr True \<Rightarrow>
          (case match_rule lib p (rules cfg) of
             None \<Rightarrow> Inr st
           | Some r \<Rightarrow>
               (case to_dir r of
                  None \<Rightarrow> Inl KeyError
                | Some td \<Rightarrow>
                    let out_dir = expand_path lib td now;
                        name = build_target_name p r now 0
                    in if dry then Inr (processed + 1, w)
                       else (case move_with_unique w p out_dir name (get_ensure_unique r) of
                               Inl e \<Rightarrow> Inl e
                             | Inr (target, w1) \<Rightarrow>
                                 Inr (processed + 1, mark_managed_dir w1 out_dir (get_marker cfg))))))"

fun file_loop ::
  "stdlib \<Rightarrow> config \<Rightarrow> datetime \<Rightarrow> bool \<Rightarrow> path list \<Rightarrow> nat \<times> world \<Rightarrow> error + nat \<times> world" where
  "file_loop lib cfg now dry [] st = Inr st"
| "file_loop lib cfg now dry (p # ps) st =
     (case file_step lib cfg now dry p st of
        Inl e \<Rightarrow> Inl e
      | Inr st' \<Rightarrow> file_loop lib cfg now dry ps st')"

text \<open>The five \<open>continue\<close> tests of the directory loop, in their order.\<close>

definition dir_skipped :: "config \<Rightarrow> path list \<Rightarrow> world \<Rightarrow> path \<Rightarrow> error + bool" where
  "dir_skipped cfg exclude_paths w d =
     (case is_candidate_dir w d (get_min_age cfg) of
        Inl e \<Rightarrow> Inl e
      | Inr False \<Rightarrow> Inr True
      | Inr True \<Rightarrow>
          if path_name d \<in> set (ignore_names cfg) then Inr True
          else if startswith (path_name d) ''.'' then Inr True
          else if is_managed_dir w d (get_marker cfg) then Inr True
          else if skip_by_excludes w exclude_paths d then Inr True
          else Inr False)"

definition dir_step ::
  "config \<Rightarrow> bool \<Rightarrow> path list \<Rightarrow> path \<Rightarrow> path \<Rightarrow> nat \<times> world \<Rightarrow> error + nat \<times> world" where
  "dir_step cfg dry exclude_paths target_root d st =
     (let (processed, w) = st in
      case dir_skipped cfg exclude_paths w d of
        Inl e \<Rightarrow> Inl e
      | Inr True \<Rightarrow> Inr st
      | Inr False \<Rightarrow>
          if dry then Inr (processed + 1, w)
          else (case move_dir_with_unique w d target_root True of
                  Inl e \<Rightarrow> Inl e
                | Inr (moved, w1) \<Rightarrow> Inr (processed + 1, w1)))"

fun dir_loop ::
  "config \<Rightarrow> bool \<Rightarrow> path list \<Rightarrow> path \<Rightarrow> path list \<Rightarrow> nat \<times> world \<Rightarrow> error + nat \<times> world" where
  "dir_loop cfg dry exclude_paths target_root [] st = Inr st"
| "dir_loop cfg dry exclude_paths target_root (d # ds) st =
     (case dir_step cfg dry exclude_paths target_root d st of
        Inl e \<Rightarrow> Inl e
      | Inr st' \<Rightarrow> dir_loop cfg dry exclude_paths target_root ds st')"

definition dir_phase ::
  "stdlib \<Rightarrow> config \<Rightarrow> datetime \<Rightarrow> bool \<Rightarrow> path \<Rightarrow> nat \<times> world \<Rightarrow> error + nat \<times> world" where
  "dir_phase lib cfg now dry wdir st =
     (let (processed, w) = st;
          wd = resolve w wdir;
          exclude_paths = build_unmanaged_exclude_paths lib cfg now w wd;
          target_root = expand_path lib (get_unmanaged_dir_target cfg) now
      in case scandir w wdir of
           Inl e \<Rightarrow> Inl e
         | Inr (entries, w1) \<Rightarrow>
             dir_loop cfg dry exclude_paths target_root (sort entries) (processed, w1))"

definition process_once ::
  "stdlib \<Rightarrow> config \<Rightarrow> datetime \<Rightarrow> bool \<Rightarrow> world \<Rightarrow> error + nat \<times> world" where
  "process_once lib cfg now dry w =
     (let wdir = expand_path lib (watch_dir cfg) now in
      if \<not> path_exists w wdir then Inr (0, w)
      else (case scandir w wdir of
              Inl e \<Rightarrow> Inl e
            | Inr (entries, w1) \<Rightarrow>
                (case file_loop lib cfg now dry (sort entries) (0, w1) of
                   Inl e \<Rightarrow> Inl e
                 | Inr st \<Rightarrow>
                     if collect_unmanaged_dirs cfg then dir_phase lib cfg now dry wdir st
                     else Inr st)))"

section \<open>Notions used in the statements\<close>

text \<open>Two timestamps that agree down to the second.\<close>

definition same_second :: "datetime \<Rightarrow> datetime \<Rightarrow> bool" where
  "same_second dt dt' =
     (year dt = year dt' \<and> month dt = month dt' \<and> day dt = day dt' \<and> hour dt = hour dt'
      \<and> minute dt = minute dt' \<and> second dt = second dt')"

text \<open>The age/candidate check of the directory loop as a truth value.\<close>

definition dir_is_candidate :: "config \<Rightarrow> world \<Rightarrow> path \<Rightarrow> bool" where
  "dir_is_candidate cfg w d =
     (is_dir w d
      \<and> (case lookup w d of Some n \<Rightarrow> get_min_age cfg \<le> clock w - mtime n | None \<Rightarrow> False))"



text \<open>
  A filesystem is well formed when the working directory is absolute and every proper
  ancestor of an entry is a directory.
\<close>

definition dir_at :: "world \<Rightarrow> path \<Rightarrow> bool" where
  "dir_at w q = (case map_of (files w) q of Some (Dir t) \<Rightarrow> True | _ \<Rightarrow> False)"

definition well_formed :: "world \<Rightarrow> bool" where
  "well_formed w =
     (is_absolute (cwd w)
      \<and> list_all (\<lambda>(k, n). list_all (\<lambda>i. dir_at w (take i k)) [1 ..< length k]) (files w))"

text \<open>A file name: one component, without separator.\<close>

definition plain_segment :: "string \<Rightarrow> bool" where
  "plain_segment s = (s \<noteq> [] \<and> s \<noteq> ''.'' \<and> CHR ''/'' \<notin> set s)"

text \<open>One directory created by mkdir.\<close>

definition made_dir :: "path \<Rightarrow> world \<Rightarrow> world" where
  "made_dir q w = record_call (Mkdir q) (touch_parent q (set_node q (Dir (clock w)) w))"

text \<open>A key lies at or below another.\<close>

definition at_or_below :: "path \<Rightarrow> path \<Rightarrow> bool" where
  "at_or_below s k = (take (length s) k = s)"

text \<open>What a dry run counts.\<close>

definition file_selected :: "stdlib \<Rightarrow> config \<Rightarrow> world \<Rightarrow> path \<Rightarrow> bool" where
  "file_selected lib cfg w p =
     (is_candidate_file w p (get_min_age cfg) (ignore_ext cfg) (ignore_names cfg) = Inr True
      \<and> match_rule lib p (rules cfg) \<noteq> None)"

definition dir_selected :: "config \<Rightarrow> path list \<Rightarrow> world \<Rightarrow> path \<Rightarrow> bool" where
  "dir_selected cfg exclude_paths w d = (dir_skipped cfg exclude_paths w d = Inr False)"

definition dry_count :: "stdlib \<Rightarrow> config \<Rightarrow> datetime \<Rightarrow> world \<Rightarrow> nat" where
  "dry_count lib cfg now w =
     (let wdir = expand_path lib (watch_dir cfg) now in
      case iterdir w wdir of
        Inl e \<Rightarrow> 0
      | Inr entries \<Rightarrow>
          length (filter (file_selected lib cfg w) (sort entries))
          + (if collect_unmanaged_dirs cfg
             then length (filter
                    (dir_selected cfg
                       (build_unmanaged_exclude_paths lib cfg now w (resolve w wdir)) w)
                    (sort entries))
             else 0))"

text \<open>
  The calls that read a listing, and two worlds with the same filesystem, working
  directory and time.
\<close>

definition is_scandir :: "syscall \<Rightarrow> bool" where
  "is_scandir c = (case c of Scandir p es \<Rightarrow> True | _ \<Rightarrow> False)"

definition same_fs :: "world \<Rightarrow> world \<Rightarrow> bool" where
  "same_fs w w' = (files w' = files w \<and> cwd w' = cwd w \<and> clock w' = clock w)"

text \<open>The world after the listing of the watch directory has been read.\<close>

definition listed :: "world \<Rightarrow> path \<Rightarrow> path list \<Rightarrow> world" where
  "listed w p entries = record_call (Scandir (abs_path w p) entries) w"

text \<open>The listing reads among the calls of a world.\<close>

definition scans :: "world \<Rightarrow> syscall list" where
  "scans w = filter is_scandir (calls w)"

section \<open>Sample inputs\<close>

text \<open>
  For evaluating the model on concrete inputs: a glob matcher for patterns made of
  literal characters, \<open>*\<close> and \<open>?\<close> (case-sensitive, as \<open>fnmatch\<close> is on POSIX), a
  four-entry MIME table, an environment in which no variable is set (so that
  \<open>expandvars\<close> leaves every string unchanged) and the home directory \<open>/home/user\<close>.
\<close>

fun sample_fnmatch :: "string \<Rightarrow> string \<Rightarrow> bool" where
  "sample_fnmatch s [] = (s = [])"
| "sample_fnmatch s (p # ps) =
     (if p = CHR ''*''
      then sample_fnmatch s ps \<or> (case s of [] \<Rightarrow> False | c # cs \<Rightarrow> sample_fnmatch cs (p # ps))
      else (case s of [] \<Rightarrow> False | c # cs \<Rightarrow> (p = CHR ''?'' \<or> p = c) \<and> sample_fnmatch cs ps))"

definition sample_guess_type :: "string \<Rightarrow> string option" where
  "sample_guess_type name =
     map_of [(''.pdf'', ''application/pdf''), (''.txt'', ''text/plain''),
             (''.jpg'', ''image/jpeg''), (''.png'', ''image/png'')] (lower (suffix_of [name]))"

definition sample_expanduser :: "string \<Rightarrow> string" where
  "sample_expanduser s = (if s = ''~'' \<or> startswith s ''~/'' then ''/home/user'' @ tl s else s)"

definition sample_lib :: stdlib where
  "sample_lib = \<lparr>guess_type = sample_guess_type, fnmatch = sample_fnmatch,
                 expandvars = (\<lambda>s. s), expanduser = sample_expanduser\<rparr>"

definition sample_dt :: datetime where
  "sample_dt = \<lparr>year = 2026, month = 11, day = 3, hour = 9, minute = 5, second = 7,
                microsecond = 123\<rparr>"

text \<open>A rule with no key set, to build sample rules from.\<close>

definition empty_rule :: rule where
  "empty_rule = \<lparr>rule_name = [], match_ext = [], match_mime = [], match_glob = [],
                 match_all = False, to_dir = None, rename = None, ensure_unique = None\<rparr>"

text \<open>
  A catch-all rule and a rule for \<open>pdf\<close>: with the catch-all rule listed first it wins for
  \<open>report.pdf\<close>, although the later rule matches by extension. A third rule renames with
  a date and a time.
\<close>

definition catch_all_rule :: rule where
  "catch_all_rule = empty_rule\<lparr>rule_name := ''rest'', match_all := True, to_dir := Some ''/srv/rest''\<rparr>"

definition pdf_rule :: rule where
  "pdf_rule = empty_rule\<lparr>rule_name := ''pdf'', match_ext := [''PDF''], to_dir := Some ''/srv/docs''\<rparr>"

definition dated_rule :: rule where
  "dated_rule = empty_rule\<lparr>rule_name := ''dated'', match_ext := [''pdf''],
                  to_dir := Some ''/srv/docs/{YYYY}'', rename := Some ''{stem}_{date}:{time}''\<rparr>"

text \<open>
  The watch directory \<open>/dl\<close> at time 100: a text file and a marker file old enough to be
  candidates, a text file that is too young, a hidden directory, a directory that holds
  a marker and a stray directory. The configuration stamps text files with the date in
  place and sends every other file to \<open>/srv/rest\<close>; stray directories go to an archive
  by month.
\<close>

definition inbox_world :: world where
  "inbox_world =
     \<lparr>files = [([''/''], Dir 0), ([''/'', ''dl''], Dir 50),
               ([''/'', ''dl'', ''!first.txt''], File 80),
               ([''/'', ''dl'', ''.dorg_managed''], File 60),
               ([''/'', ''dl'', ''.cache''], Dir 20),
               ([''/'', ''dl'', ''docs''], Dir 30),
               ([''/'', ''dl'', ''docs'', ''.dorg_managed''], File 30),
               ([''/'', ''dl'', ''misc''], Dir 70),
               ([''/'', ''dl'', ''misc'', ''x.bin''], File 10),
               ([''/'', ''dl'', ''new.txt''], File 97)],
      cwd = [''/''], clock = 100, calls = []\<rparr>"

definition stamp_rule :: rule where
  "stamp_rule = empty_rule\<lparr>rule_name := ''stamp'', match_ext := [''txt''],
                  to_dir := Some ''/dl'', rename := Some ''{stem}_{date}{counter}''\<rparr>"

definition inbox_cfg :: config where
  "inbox_cfg =
     \<lparr>watch_dir = ''/dl'', min_age_sec = None, ignore_ext = [''.part''],
      ignore_names = [''desktop.ini''], managed_marker = None, collect_unmanaged_dirs = True,
      unmanaged_dirs_exclude = [], unmanaged_dir_target = Some ''/arch/{YYYY}-{MM}'',
      rules = [stamp_rule, catch_all_rule]\<rparr>"

text \<open>The same world after another process has removed \<open>!first.txt\<close>.\<close>

definition vanished_world :: world where
  "vanished_world =
     inbox_world\<lparr>files := AList.delete [''/'', ''dl'', ''!first.txt''] (files inbox_world)\<rparr>"

text \<open>
  The same world after another process has replaced the watch directory by a regular
  file: \<open>/dl/!first.txt\<close> is gone here too, but \<open>stat\<close> fails with \<open>ENOTDIR\<close>.
\<close>

definition replaced_world :: world where
  "replaced_world = inbox_world\<lparr>files := [([''/''], Dir 0), ([''/'', ''dl''], File 99)]\<rparr>"

text \<open>The exclusion set of the sample pass.\<close>

definition inbox_excludes :: "path list" where
  "inbox_excludes =
     build_unmanaged_exclude_paths sample_lib inbox_cfg sample_dt inbox_world [''/'', ''dl'']"






text \<open>
  A destination \<open>/out\<close> with two collisions: the file arrives as \<open>a_2.txt\<close> and both older
  files are kept.
\<close>

definition crowded_world :: world where
  "crowded_world =
     \<lparr>files = [([''/''], Dir 0), ([''/'', ''dl''], Dir 50),
               ([''/'', ''dl'', ''a.txt''], File 80),
               ([''/'', ''out''], Dir 5),
               ([''/'', ''out'', ''a.txt''], File 1),
               ([''/'', ''out'', ''a_1.txt''], File 2)],
      cwd = [''/''], clock = 100, calls = []\<rparr>"

definition crowded_move :: "error + path \<times> world" where
  "crowded_move =
     move_with_unique crowded_world [''/'', ''dl'', ''a.txt''] [''/'', ''out''] ''a.txt'' True"

text \<open>The sample pass, dry and real, and a configuration with nothing to do.\<close>

definition idle_cfg :: config where
  "idle_cfg = inbox_cfg\<lparr>rules := [], collect_unmanaged_dirs := False\<rparr>"

definition inbox_dry :: "error + nat \<times> world" where
  "inbox_dry = process_once sample_lib inbox_cfg sample_dt True inbox_world"

definition inbox_real :: "error + nat \<times> world" where
  "inbox_real = process_once sample_lib inbox_cfg sample_dt False inbox_world"

definition inbox_idle :: "error + nat \<times> world" where
  "inbox_idle = process_once sample_lib idle_cfg sample_dt True inbox_world"

section \<open>The probing loop of the movers ends\<close>

text \<open>
  The loop \<open>while candidate.exists(): i += 1; candidate = dst_dir / f"{stem}_{i}{ext}"\<close>
  ends because the names it probes are pairwise different paths and the filesystem is
  finite.
\<close>

lemma digit_char_inj: "d < 10 \<Longrightarrow> e < 10 \<Longrightarrow> digit_char d = digit_char e \<Longrightarrow> d = e"
proof -
  assume d: "d < 10" and e: "e < 10" and eq: "digit_char d = digit_char e"
  have dist: "distinct ''0123456789''" by simp
  have len: "length ''0123456789'' = 10" by simp
  from eq have "''0123456789'' ! d = ''0123456789'' ! e" by (simp only: digit_char_def)
  with dist d e len show "d = e" by (simp only: nth_eq_iff_index_eq)
qed

lemma str_nat_nonempty: "str_nat n \<noteq> []"
  by (subst str_nat.simps) simp

lemma str_nat_inj: "str_nat n = str_nat m \<Longrightarrow> n = m"
proof (induction n arbitrary: m rule: str_nat.induct)
  case (1 n)
  show ?case
  proof (cases "n < 10")
    case True
    note n = this
    show ?thesis
    proof (cases "m < 10")
      case True
      with n "1.prems" show ?thesis
        by (simp add: str_nat.simps [of n] str_nat.simps [of m] digit_char_inj)
    next
      case False
      with n "1.prems" str_nat_nonempty [of "m div 10"] show ?thesis
        by (simp add: str_nat.simps [of n] str_nat.simps [of m])
    qed
  next
    case False
    note n = this
    show ?thesis
    proof (cases "m < 10")
      case True
      with n "1.prems" str_nat_nonempty [of "n div 10"] show ?thesis
        by (simp add: str_nat.simps [of n] str_nat.simps [of m])
    next
      case False
      with n "1.prems" have a: "str_nat (n div 10) = str_nat (m div 10)"
        and b: "digit_char (n mod 10) = digit_char (m mod 10)"
        by (simp_all add: str_nat.simps [of n] str_nat.simps [of m])
      from "1.IH" [OF n a] have "n div 10 = m div 10" .
      moreover from b have "n mod 10 = m mod 10" by (simp add: digit_char_inj)
      ultimately show ?thesis by (metis div_mult_mod_eq)
    qed
  qed
qed

lemma split_slash_nonempty: "split_slash s \<noteq> []"
  by (induction s) (auto split: list.splits)

lemma split_slash_append:
  "split_slash (a @ s) =
     butlast (split_slash a) @ [last (split_slash a) @ hd (split_slash s)] @ tl (split_slash s)"
proof (induction a)
  case Nil
  then show ?case using split_slash_nonempty [of s] by simp
next
  case (Cons c a)
  show ?case
  proof (cases "c = CHR ''/''")
    case True
    then show ?thesis using Cons split_slash_nonempty [of a] by simp
  next
    case False
    obtain w ws where ws: "split_slash a = w # ws"
      using split_slash_nonempty [of a] by (cases "split_slash a") auto
    show ?thesis
    proof (cases ws)
      case Nil
      with False ws Cons show ?thesis by simp
    next
      case (Cons x xs)
      with False ws Cons.IH show ?thesis by simp
    qed
  qed
qed

lemma split_slash_no_slash: "CHR ''/'' \<notin> set a \<Longrightarrow> split_slash a = [a]"
  by (induction a) auto

lemma str_nat_digits: "set (str_nat n) \<subseteq> set ''0123456789''"
proof (induction n rule: str_nat.induct)
  case (1 n)
  have d: "\<And>k. k < 10 \<Longrightarrow> digit_char k \<in> set ''0123456789''"
    unfolding digit_char_def by (rule nth_mem) simp
  show ?case
  proof (cases "n < 10")
    case True
    then show ?thesis using d [of n] by (subst str_nat.simps) simp
  next
    case False
    then show ?thesis using "1.IH" d [of "n mod 10"] by (subst str_nat.simps) simp
  qed
qed

lemma str_nat_no_slash: "CHR ''/'' \<notin> set (str_nat n)"
  using str_nat_digits [of n] by auto

lemma segments_numbered:
  "\<exists>X u v Y. \<forall>i. segments (numbered stem ext i) = X @ [u @ ''_'' @ str_nat i @ v] @ Y"
proof -
  let ?P = "\<lambda>w. w \<noteq> [] \<and> w \<noteq> ''.''"
  let ?X = "filter ?P (butlast (split_slash stem))"
  let ?u = "last (split_slash stem)"
  let ?v = "hd (split_slash ext)"
  let ?Y = "filter ?P (tl (split_slash ext))"
  have "segments (numbered stem ext i) = ?X @ [?u @ ''_'' @ str_nat i @ ?v] @ ?Y" for i
  proof -
    have m: "split_slash ((''_'' @ str_nat i) @ ext)
        = butlast [''_'' @ str_nat i] @ [last [''_'' @ str_nat i] @ hd (split_slash ext)] @ tl (split_slash ext)"
      using split_slash_append [of "''_'' @ str_nat i" ext]
        split_slash_no_slash [of "''_'' @ str_nat i"] str_nat_no_slash [of i] by simp
    have "split_slash (numbered stem ext i)
        = butlast (split_slash stem) @ [?u @ ''_'' @ str_nat i @ ?v] @ tl (split_slash ext)"
      unfolding numbered_def using split_slash_append [of stem "(''_'' @ str_nat i) @ ext"] m
      by simp
    moreover have "?P (?u @ ''_'' @ str_nat i @ ?v)"
      by (auto simp: append_eq_Cons_conv)
    ultimately show ?thesis by (simp add: segments_def)
  qed
  then show ?thesis by blast
qed

lemma root_of_numbered: "root_of (numbered stem ext i) = root_of (numbered stem ext j)"
proof (cases stem)
  case Nil
  then show ?thesis by (simp add: numbered_def root_of_def startswith_def)
next
  case (Cons a r1)
  note s1 = this
  show ?thesis
  proof (cases r1)
    case Nil
    with s1 show ?thesis by (simp add: numbered_def root_of_def startswith_def)
  next
    case (Cons b r2)
    note s2 = this
    show ?thesis
    proof (cases r2)
      case Nil
      with s1 s2 show ?thesis by (simp add: numbered_def root_of_def startswith_def)
    next
      case (Cons c r3)
      with s1 s2 show ?thesis by (simp add: numbered_def root_of_def startswith_def)
    qed
  qed
qed

lemma root_of_cases: "root_of s = [] \<or> is_root (root_of s)"
  by (simp add: root_of_def is_root_def)

lemma numbered_key_shape:
  "\<exists>A u v B. \<forall>i. abs_path w (joinpath d (numbered stem ext i)) = A @ [u @ ''_'' @ str_nat i @ v] @ B"
proof -
  obtain X u v Y where seg: "\<And>i. segments (numbered stem ext i) = X @ [u @ ''_'' @ str_nat i @ v] @ Y"
    using segments_numbered [of stem ext] by blast
  define r0 where "r0 = root_of (numbered stem ext 0)"
  have r: "root_of (numbered stem ext i) = r0" for i
    unfolding r0_def by (rule root_of_numbered)
  have r0: "r0 = [] \<or> is_root r0"
    unfolding r0_def by (rule root_of_cases)
  have mid: "\<not> is_root (u @ ''_'' @ str_nat i @ v)" for i
  proof
    assume "is_root (u @ ''_'' @ str_nat i @ v)"
    then have "set (u @ ''_'' @ str_nat i @ v) \<subseteq> {CHR ''/''}"
      unfolding is_root_def by (elim disjE) simp_all
    then show False by simp
  qed
  show ?thesis
  proof (cases "r0 = []")
    case False
    with r0 have "is_root r0" by simp
    then have "abs_path w (joinpath d (numbered stem ext i)) = (r0 # X) @ [u @ ''_'' @ str_nat i @ v] @ Y" for i
      using False by (simp add: abs_path_def joinpath_def Path_def r seg is_absolute_def)
    then show ?thesis by blast
  next
    case True
    note rnil = this
    show ?thesis
    proof (cases "d @ X")
      case Nil
      then have "abs_path w (joinpath d (numbered stem ext i)) = cwd w @ [u @ ''_'' @ str_nat i @ v] @ Y" for i
        using rnil mid [of i] by (simp add: abs_path_def joinpath_def r seg is_absolute_def)
      then show ?thesis by blast
    next
      case (Cons h t)
      then have e: "joinpath d (numbered stem ext i) = (h # t) @ [u @ ''_'' @ str_nat i @ v] @ Y" for i
        using rnil by (simp add: joinpath_def r seg)
      show ?thesis
      proof (cases "is_root h")
        case True
        then have "abs_path w (joinpath d (numbered stem ext i)) = (h # t) @ [u @ ''_'' @ str_nat i @ v] @ Y" for i
          by (simp add: abs_path_def e is_absolute_def)
        then show ?thesis by blast
      next
        case False
        then have "abs_path w (joinpath d (numbered stem ext i)) = (cwd w @ h # t) @ [u @ ''_'' @ str_nat i @ v] @ Y" for i
          by (simp add: abs_path_def e is_absolute_def)
        then show ?thesis by blast
      qed
    qed
  qed
qed

lemma numbered_key_inj: "inj (\<lambda>i. abs_path w (joinpath d (numbered stem ext i)))"
proof -
  obtain A u v B where sh: "\<And>i. abs_path w (joinpath d (numbered stem ext i)) = A @ [u @ ''_'' @ str_nat i @ v] @ B"
    using numbered_key_shape [of w d stem ext] by blast
  show ?thesis
  proof (rule injI)
    fix i j
    assume "abs_path w (joinpath d (numbered stem ext i)) = abs_path w (joinpath d (numbered stem ext j))"
    then have "str_nat i = str_nat j" by (simp add: sh)
    then show "i = j" by (rule str_nat_inj)
  qed
qed

lemma path_exists_key: "path_exists w p \<longleftrightarrow> abs_path w p \<in> fst ` set (files w)"
  by (simp add: path_exists_def lookup_def map_of_eq_None_iff)

lemma finite_numbered_exists: "finite {j. path_exists w (joinpath d (numbered stem ext j))}"
proof -
  have "{j. path_exists w (joinpath d (numbered stem ext j))}
      = (\<lambda>i. abs_path w (joinpath d (numbered stem ext i))) -` (fst ` set (files w))"
    by (auto simp: path_exists_key)
  moreover have "finite ((\<lambda>i. abs_path w (joinpath d (numbered stem ext i))) -` (fst ` set (files w)))"
    by (rule finite_vimageI) (simp_all add: numbered_key_inj)
  ultimately show ?thesis by simp
qed

termination unique_candidate
proof (relation "measure (\<lambda>(w, d, stem, ext, i, c).
        2 * probes_left w d stem ext i + (if path_exists w c then 1 else 0))")
  show "wf (measure (\<lambda>(w, d, stem, ext, i, c).
        2 * probes_left w d stem ext i + (if path_exists w c then 1 else 0)))" by simp
next
  fix w :: world and dst_dir :: path and stem ext :: string and i :: nat and candidate :: path
  assume ex: "path_exists w candidate"
  let ?E = "\<lambda>j. path_exists w (joinpath dst_dir (numbered stem ext j))"
  have fin: "finite {j. i < j \<and> ?E j}"
    by (rule finite_subset [OF _ finite_numbered_exists [of w dst_dir stem ext]]) auto
  have lt: "i < j \<longleftrightarrow> Suc i < j \<or> j = Suc i" for j by auto
  have split: "{j. i < j \<and> ?E j} = {j. Suc i < j \<and> ?E j} \<union> (if ?E (Suc i) then {Suc i} else {})"
    unfolding lt by auto
  have fin': "finite {j. Suc i < j \<and> ?E j}"
    by (rule finite_subset [OF _ fin]) auto
  have "2 * card {j. Suc i < j \<and> ?E j} + (if ?E (Suc i) then 1 else 0) < 2 * card {j. i < j \<and> ?E j} + 1"
  proof (cases "?E (Suc i)")
    case True
    then have "card {j. i < j \<and> ?E j} = Suc (card {j. Suc i < j \<and> ?E j})"
      using fin' by (simp add: split)
    with True show ?thesis by simp
  next
    case False
    then show ?thesis by (simp add: split)
  qed
  with ex show "((w, dst_dir, stem, ext, Suc i, joinpath dst_dir (numbered stem ext (Suc i))),
        (w, dst_dir, stem, ext, i, candidate))
      \<in> measure (\<lambda>(w, d, stem, ext, i, c).
          2 * probes_left w d stem ext i + (if path_exists w c then 1 else 0))"
    by (simp add: probes_left_def)
qed

declare unique_candidate.simps [simp del]

section \<open>Properties of \<open>match_rule\<close>\<close>

lemma rule_hit_iff:
  "rule_hit lib (path_name src) (ext_of src) (guess_type lib (path_name src)) r \<noteq> None
     \<longleftrightarrow> rule_matches lib src r"
  by (auto simp: rule_hit_def rule_matches_def ext_matches_def mime_matches_def glob_matches_def
      Let_def list_ex_iff truthy_mime_def mime_has_prefix_def split: option.splits)

lemma rule_hit_order:
  fixes lib src r
  defines "h \<equiv> rule_hit lib (path_name src) (ext_of src) (guess_type lib (path_name src)) r"
  shows "(h = Some ByExt \<longleftrightarrow> ext_matches src r)
    \<and> (h = Some ByMime \<longleftrightarrow> \<not> ext_matches src r \<and> mime_matches lib src r)
    \<and> (h = Some ByGlob \<longleftrightarrow>
         \<not> ext_matches src r \<and> \<not> mime_matches lib src r \<and> glob_matches lib src r)
    \<and> (h = Some ByAll \<longleftrightarrow>
         \<not> ext_matches src r \<and> \<not> mime_matches lib src r \<and> \<not> glob_matches lib src r \<and> match_all r)"
  unfolding h_def
  by (auto simp: rule_hit_def rule_matches_def ext_matches_def mime_matches_def glob_matches_def
      Let_def list_ex_iff truthy_mime_def mime_has_prefix_def split: option.splits)

lemma match_loop_find:
  "match_loop lib n e m rs = find (\<lambda>q. rule_hit lib n e m q \<noteq> None) rs"
  by (induction rs) (auto split: option.splits)

lemma find_Some_split:
  "find P xs = Some x \<longleftrightarrow> (\<exists>pre post. xs = pre @ x # post \<and> (\<forall>q \<in> set pre. \<not> P q) \<and> P x)"
proof (induction xs)
  case Nil
  then show ?case by simp
next
  case (Cons a xs)
  show ?case
  proof (cases "P a")
    case True
    have "(\<exists>pre post. a # xs = pre @ x # post \<and> (\<forall>q \<in> set pre. \<not> P q) \<and> P x) \<longleftrightarrow> a = x"
    proof
      assume "\<exists>pre post. a # xs = pre @ x # post \<and> (\<forall>q \<in> set pre. \<not> P q) \<and> P x"
      then obtain pre post where *: "a # xs = pre @ x # post" "\<forall>q \<in> set pre. \<not> P q" by blast
      show "a = x"
      proof (cases pre)
        case Nil
        with * show ?thesis by simp
      next
        case (Cons b pre')
        with * True show ?thesis by auto
      qed
    next
      assume "a = x"
      with True have "a # xs = [] @ x # xs \<and> (\<forall>q \<in> set []. \<not> P q) \<and> P x" by simp
      then show "\<exists>pre post. a # xs = pre @ x # post \<and> (\<forall>q \<in> set pre. \<not> P q) \<and> P x" by blast
    qed
    with True show ?thesis by simp
  next
    case False
    have "(\<exists>pre post. a # xs = pre @ x # post \<and> (\<forall>q \<in> set pre. \<not> P q) \<and> P x)
       \<longleftrightarrow> (\<exists>pre post. xs = pre @ x # post \<and> (\<forall>q \<in> set pre. \<not> P q) \<and> P x)"
    proof
      assume "\<exists>pre post. a # xs = pre @ x # post \<and> (\<forall>q \<in> set pre. \<not> P q) \<and> P x"
      then obtain pre post
        where *: "a # xs = pre @ x # post" "\<forall>q \<in> set pre. \<not> P q" "P x" by blast
      show "\<exists>pre post. xs = pre @ x # post \<and> (\<forall>q \<in> set pre. \<not> P q) \<and> P x"
      proof (cases pre)
        case Nil
        with * False show ?thesis by simp
      next
        case (Cons b pre')
        with * have "xs = pre' @ x # post \<and> (\<forall>q \<in> set pre'. \<not> P q) \<and> P x" by simp
        then show ?thesis by blast
      qed
    next
      assume "\<exists>pre post. xs = pre @ x # post \<and> (\<forall>q \<in> set pre. \<not> P q) \<and> P x"
      then obtain pre post
        where *: "xs = pre @ x # post" "\<forall>q \<in> set pre. \<not> P q" "P x" by blast
      with False
      have "a # xs = (a # pre) @ x # post \<and> (\<forall>q \<in> set (a # pre). \<not> P q) \<and> P x" by simp
      then show "\<exists>pre post. a # xs = pre @ x # post \<and> (\<forall>q \<in> set pre. \<not> P q) \<and> P x" by blast
    qed
    with False Cons show ?thesis by simp
  qed
qed

lemma match_rule_Some_iff:
  "match_rule lib src rs = Some r \<longleftrightarrow>
     (\<exists>pre post. rs = pre @ r # post \<and> (\<forall>q \<in> set pre. \<not> rule_matches lib src q)
        \<and> rule_matches lib src r)"
  unfolding match_rule_def Let_def match_loop_find find_Some_split rule_hit_iff ..

lemma match_rule_None_iff:
  "match_rule lib src rs = None \<longleftrightarrow> (\<forall>q \<in> set rs. \<not> rule_matches lib src q)"
  unfolding match_rule_def Let_def match_loop_find find_None_iff rule_hit_iff by blast

text \<open>
  C1. \<open>match_rule\<close> returns the first rule of the list, in list order, that matches by
  extension, MIME prefix, glob or catch-all flag: the result is \<open>r\<close> exactly when the list
  is \<open>pre @ r # post\<close> with no rule of \<open>pre\<close> matching and \<open>r\<close> matching (whatever stands
  in \<open>post\<close>), and it is \<open>None\<close> exactly when no rule matches. Within a rule the tests
  run in the order extension, MIME, glob, catch-all: each \<open>return\<close> is reached exactly
  when its own test succeeds and the tests before it failed.
\<close>

theorem match_rule_first_match:
  "(match_rule lib src rs = Some r \<longleftrightarrow>
      (\<exists>pre post. rs = pre @ r # post \<and> (\<forall>q \<in> set pre. \<not> rule_matches lib src q)
         \<and> rule_matches lib src r))
   \<and> (match_rule lib src rs = None \<longleftrightarrow> (\<forall>q \<in> set rs. \<not> rule_matches lib src q))
   \<and> (\<forall>q h. h = rule_hit lib (path_name src) (ext_of src) (guess_type lib (path_name src)) q \<longrightarrow>
        (h = Some ByExt \<longleftrightarrow> ext_matches src q)
      \<and> (h = Some ByMime \<longleftrightarrow> \<not> ext_matches src q \<and> mime_matches lib src q)
      \<and> (h = Some ByGlob \<longleftrightarrow>
           \<not> ext_matches src q \<and> \<not> mime_matches lib src q \<and> glob_matches lib src q)
      \<and> (h = Some ByAll \<longleftrightarrow>
           \<not> ext_matches src q \<and> \<not> mime_matches lib src q \<and> \<not> glob_matches lib src q
           \<and> match_all q))"
  (is "?first \<and> ?none \<and> ?order")
proof -
  have a: ?first by (rule match_rule_Some_iff)
  have b: ?none by (rule match_rule_None_iff)
  have c: ?order
  proof (intro allI impI)
    fix q h
    assume "h = rule_hit lib (path_name src) (ext_of src) (guess_type lib (path_name src)) q"
    then show "(h = Some ByExt \<longleftrightarrow> ext_matches src q)
      \<and> (h = Some ByMime \<longleftrightarrow> \<not> ext_matches src q \<and> mime_matches lib src q)
      \<and> (h = Some ByGlob \<longleftrightarrow>
           \<not> ext_matches src q \<and> \<not> mime_matches lib src q \<and> glob_matches lib src q)
      \<and> (h = Some ByAll \<longleftrightarrow>
           \<not> ext_matches src q \<and> \<not> mime_matches lib src q \<and> \<not> glob_matches lib src q
           \<and> match_all q)"
      using rule_hit_order [of lib src q] by simp
  qed
  from a b c show ?thesis by (intro conjI)
qed

theorem match_rule_first_match_witness:
  "match_rule sample_lib [''/'', ''dl'', ''report.pdf''] [catch_all_rule, pdf_rule] = Some catch_all_rule
   \<and> ext_matches [''/'', ''dl'', ''report.pdf''] pdf_rule
   \<and> rule_hit sample_lib ''report.pdf'' ''pdf'' (Some ''application/pdf'') catch_all_rule = Some ByAll"
proof -
  let ?src = "[''/'', ''dl'', ''report.pdf'']"
  have m: "rule_matches sample_lib ?src catch_all_rule"
    by (simp add: rule_matches_def catch_all_rule_def empty_rule_def)
  have "[catch_all_rule, pdf_rule] = [] @ catch_all_rule # [pdf_rule]
        \<and> (\<forall>q \<in> set []. \<not> rule_matches sample_lib ?src q) \<and> rule_matches sample_lib ?src catch_all_rule"
    using m by simp
  then have e: "\<exists>pre post. [catch_all_rule, pdf_rule] = pre @ catch_all_rule # post
        \<and> (\<forall>q \<in> set pre. \<not> rule_matches sample_lib ?src q) \<and> rule_matches sample_lib ?src catch_all_rule"
    by blast
  have n: "path_name ?src = ''report.pdf''" by (simp add: path_name_def is_root_def)
  have x: "ext_of ?src = ''pdf''"
    by (simp add: ext_of_def suffix_of_def n Let_def lstrip_dot_def lower_def lower_char_def
        upper_letters_def lower_letters_def)
  have g: "guess_type sample_lib ''report.pdf'' = Some ''application/pdf''"
    by (simp add: sample_lib_def sample_guess_type_def suffix_of_def path_name_def is_root_def
        Let_def lower_def lower_char_def upper_letters_def lower_letters_def)
  have p: "ext_matches ?src pdf_rule"
    by (simp add: ext_matches_def x pdf_rule_def empty_rule_def lower_def lower_char_def
        upper_letters_def lower_letters_def)
  have h: "rule_hit sample_lib ''report.pdf'' ''pdf'' (Some ''application/pdf'') catch_all_rule = Some ByAll"
    by (simp add: rule_hit_def catch_all_rule_def empty_rule_def)
  from e p h show ?thesis
    using match_rule_first_match [of sample_lib ?src "[catch_all_rule, pdf_rule]" catch_all_rule]
    by simp
qed

section \<open>Properties of the template expansions\<close>

lemma replace_char: "replace [b] [u] s = map (\<lambda>x. if x = b then u else x) s"
  by (induction s) (auto simp: startswith_def)

lemma replace_absent: "old \<noteq> [] \<Longrightarrow> \<not> contains s old \<Longrightarrow> replace old new s = s"
  by (induction s) auto

lemma replace_all_absent:
  "\<forall>k \<in> set (map fst kvs). k \<noteq> [] \<and> \<not> contains s k \<Longrightarrow> replace_all kvs s = s"
  by (induction kvs arbitrary: s) (auto simp: replace_absent)

lemma sanitize_map:
  "sanitize bads name = map (\<lambda>x. if x \<in> set bads then CHR ''_'' else x) name"
  by (induction bads arbitrary: name) (auto simp: replace_char)

lemma underscore_not_bad: "CHR ''_'' \<notin> set bad_chars"
  by (simp add: bad_chars_def)

lemma sanitize_clean: "c \<in> set bad_chars \<Longrightarrow> c \<notin> set (sanitize bad_chars name)"
  using underscore_not_bad by (auto simp: sanitize_map)

lemma endswith_append: "endswith (a @ b) b"
  by (simp add: endswith_def)

lemma build_target_name_eq:
  "build_target_name src r dt counter =
     sanitize bad_chars (replace_all (name_repl src dt counter) (rename_or_stem r))
       @ (if ext_of src \<noteq> [] then CHR ''.'' # ext_of src else [])"
  by (simp add: build_target_name_def Let_def)

text \<open>
  C3, as amended. The target name is the sanitised expansion of the rename template
  followed by \<open>.<ext>\<close> when the lowercased source extension \<open>ext\<close> is not empty, so it
  ends in \<open>.<ext>\<close> then. The sanitised part contains none of the characters
  \<open>< > : " / \ | ? *\<close>; the extension is appended after the sanitising, so the whole name
  is free of them when the source extension is.
\<close>

theorem build_target_name_shape:
  "build_target_name src r dt counter =
     sanitize bad_chars (replace_all (name_repl src dt counter) (rename_or_stem r))
       @ (if ext_of src \<noteq> [] then CHR ''.'' # ext_of src else [])
   \<and> (ext_of src \<noteq> [] \<longrightarrow> endswith (build_target_name src r dt counter) (CHR ''.'' # ext_of src))
   \<and> (\<forall>c \<in> set bad_chars.
         c \<notin> set (sanitize bad_chars (replace_all (name_repl src dt counter) (rename_or_stem r))))
   \<and> ((\<forall>c \<in> set bad_chars. c \<notin> set (ext_of src)) \<longrightarrow>
        (\<forall>c \<in> set bad_chars. c \<notin> set (build_target_name src r dt counter)))"
  (is "?eq \<and> ?ends \<and> ?clean \<and> ?all")
proof -
  have eq: ?eq by (rule build_target_name_eq)
  have ends: ?ends unfolding eq by (simp add: endswith_append)
  have clean: ?clean using sanitize_clean by blast
  have dot: "CHR ''.'' \<notin> set bad_chars" by (simp add: bad_chars_def)
  have all: ?all
  proof (intro impI ballI)
    fix c assume e: "\<forall>c \<in> set bad_chars. c \<notin> set (ext_of src)" and c: "c \<in> set bad_chars"
    from c dot have "c \<noteq> CHR ''.''" by blast
    with e c sanitize_clean [OF c] show "c \<notin> set (build_target_name src r dt counter)"
      unfolding eq by simp
  qed
  from eq ends clean all show ?thesis by (intro conjI)
qed

theorem build_target_name_shape_witness:
  "ext_of [''/'', ''dl'', ''Report.PDF''] \<noteq> []
   \<and> build_target_name [''/'', ''dl'', ''Report.PDF''] dated_rule sample_dt 0
       = ''Report_20261103_090507.pdf''
   \<and> endswith (build_target_name [''/'', ''dl'', ''Report.PDF''] dated_rule sample_dt 0) ''.pdf''
   \<and> set bad_chars \<inter> set (ext_of [''/'', ''dl'', ''Report.PDF'']) = {}
   \<and> set bad_chars \<inter> set (build_target_name [''/'', ''dl'', ''Report.PDF''] dated_rule sample_dt 0) = {}"
proof -
  let ?src = "[''/'', ''dl'', ''Report.PDF'']"
  have x: "ext_of ?src = ''pdf''" by code_simp
  have v: "build_target_name ?src dated_rule sample_dt 0 = ''Report_20261103_090507.pdf''"
    by code_simp
  have b: "\<forall>c \<in> set bad_chars. c \<notin> set (ext_of ?src)"
    unfolding x by (simp add: bad_chars_def)
  note shape = build_target_name_shape [of ?src dated_rule sample_dt 0]
  have n: "ext_of ?src \<noteq> []" by (simp add: x)
  from shape n
  have e: "endswith (build_target_name ?src dated_rule sample_dt 0) (CHR ''.'' # ext_of ?src)"
    by blast
  from shape b
  have f: "\<forall>c \<in> set bad_chars. c \<notin> set (build_target_name ?src dated_rule sample_dt 0)"
    by blast
  from e have e': "endswith (build_target_name ?src dated_rule sample_dt 0) ''.pdf''"
    by (simp add: x)
  from b have b': "set bad_chars \<inter> set (ext_of ?src) = {}" by blast
  from f have f': "set bad_chars \<inter> set (build_target_name ?src dated_rule sample_dt 0) = {}"
    by blast
  from n v e' b' f' show ?thesis by (intro conjI)
qed

text \<open>
  The claim as stated fails for a source file whose extension holds one of the
  characters: \<open>a.b*c\<close> keeps its name, asterisk included.
\<close>

theorem build_target_name_bad_char_counterexample:
  "ext_of [''/'', ''dl'', ''a.b*c''] = ''b*c''
   \<and> build_target_name [''/'', ''dl'', ''a.b*c''] empty_rule sample_dt 0 = ''a.b*c''
   \<and> CHR ''*'' \<in> set bad_chars
   \<and> CHR ''*'' \<in> set (build_target_name [''/'', ''dl'', ''a.b*c''] empty_rule sample_dt 0)"
  by code_simp

lemma path_repl_keys: "map fst (path_repl dt) = path_keys"
  by (simp add: path_repl_def path_keys_def)

lemma name_repl_keys: "map fst (name_repl src dt counter) = name_keys"
  by (simp add: name_repl_def name_keys_def)

lemma path_subst_unchanged:
  "\<not> has_placeholder path_keys p \<Longrightarrow> replace_all (path_repl dt) p = p"
  by (rule replace_all_absent)
    (auto simp: path_repl_keys has_placeholder_def list_ex_iff path_keys_def)

lemma name_subst_unchanged:
  "\<not> has_placeholder name_keys t \<Longrightarrow> replace_all (name_repl src dt counter) t = t"
  by (rule replace_all_absent)
    (auto simp: name_repl_keys has_placeholder_def list_ex_iff name_keys_def)

text \<open>
  C6, as amended. On a template that contains no recognised placeholder the placeholder
  substitution returns the template unchanged (hence is idempotent there). The path
  context then still applies \<open>expandvars\<close>, \<open>expanduser\<close> and the parsing of \<open>Path\<close>,
  so \<open>expand_path\<close> returns \<open>Path\<close> of the input only when these two leave it unchanged
  as well; the filename context still replaces the forbidden characters and appends the
  source extension. Both expansions are functions of their arguments and read the
  timestamp down to the second only.
\<close>

theorem expansion_without_placeholders:
  "(\<not> has_placeholder path_keys p \<longrightarrow>
       replace_all (path_repl dt) p = p
     \<and> replace_all (path_repl dt) (replace_all (path_repl dt) p) = replace_all (path_repl dt) p
     \<and> expand_path lib p dt = Path (expanduser lib (expandvars lib p)))
   \<and> (\<not> has_placeholder path_keys p \<and> expandvars lib p = p \<and> expanduser lib p = p \<longrightarrow>
       expand_path lib p dt = Path p)
   \<and> (\<not> has_placeholder name_keys t \<and> t \<noteq> [] \<longrightarrow>
       replace_all (name_repl src dt counter) t = t
     \<and> build_target_name src (r\<lparr>rename := Some t\<rparr>) dt counter
         = sanitize bad_chars t @ (if ext_of src \<noteq> [] then CHR ''.'' # ext_of src else []))
   \<and> (same_second dt dt' \<longrightarrow>
       expand_path lib p dt = expand_path lib p dt'
     \<and> build_target_name src r dt counter = build_target_name src r dt' counter)"
  (is "?path \<and> ?plain \<and> ?name \<and> ?det")
proof -
  have a: ?path by (simp add: path_subst_unchanged expand_path_def)
  have b: ?plain by (simp add: path_subst_unchanged expand_path_def)
  have c: ?name
    by (simp add: name_subst_unchanged build_target_name_eq rename_or_stem_def)
  have d: ?det
    by (simp add: same_second_def expand_path_def build_target_name_eq path_repl_def
        name_repl_def fmt_date_def fmt_time_def fmt_Y_def fmt_m_def fmt_d_def)
  from a b c d show ?thesis by (intro conjI)
qed

theorem expansion_without_placeholders_witness:
  "\<not> has_placeholder path_keys ''/srv/inbox''
   \<and> expandvars sample_lib ''/srv/inbox'' = ''/srv/inbox''
   \<and> expanduser sample_lib ''/srv/inbox'' = ''/srv/inbox''
   \<and> expand_path sample_lib ''/srv/inbox'' sample_dt = Path ''/srv/inbox''
   \<and> \<not> has_placeholder name_keys ''scan''
   \<and> build_target_name [''/'', ''dl'', ''a.txt''] (empty_rule\<lparr>rename := Some ''scan''\<rparr>) sample_dt 0
       = sanitize bad_chars ''scan'' @ ''.txt''
   \<and> same_second sample_dt (sample_dt\<lparr>microsecond := 999\<rparr>)
   \<and> expand_path sample_lib ''/srv/{YYYY}'' sample_dt
       = expand_path sample_lib ''/srv/{YYYY}'' (sample_dt\<lparr>microsecond := 999\<rparr>)"
proof -
  have h1: "\<not> has_placeholder path_keys ''/srv/inbox''" by code_simp
  have h2: "expandvars sample_lib ''/srv/inbox'' = ''/srv/inbox''" by (simp add: sample_lib_def)
  have h3: "expanduser sample_lib ''/srv/inbox'' = ''/srv/inbox''" by code_simp
  have h4: "\<not> has_placeholder name_keys ''scan''" by code_simp
  have h5: "same_second sample_dt (sample_dt\<lparr>microsecond := 999\<rparr>)"
    by (simp add: same_second_def)
  have h6: "ext_of [''/'', ''dl'', ''a.txt''] = ''txt''" by code_simp
  from h1 h2 h3 h4 h5 h6 show ?thesis
    using expansion_without_placeholders [of "''/srv/inbox''" sample_dt sample_lib "''scan''"
        "[''/'', ''dl'', ''a.txt'']" 0 empty_rule "sample_dt\<lparr>microsecond := 999\<rparr>"]
      expansion_without_placeholders [of "''/srv/{YYYY}''" sample_dt sample_lib "''scan''"
        "[''/'', ''dl'', ''a.txt'']" 0 empty_rule "sample_dt\<lparr>microsecond := 999\<rparr>"]
    by simp
qed

text \<open>
  The claim as stated fails in both contexts: a rename template without placeholder
  comes back with the source extension appended, and a path without placeholder that
  starts with \<open>~\<close> comes back under the home directory.
\<close>

theorem expansion_unchanged_counterexample:
  "\<not> has_placeholder name_keys ''scan''
   \<and> build_target_name [''/'', ''dl'', ''a.txt''] (empty_rule\<lparr>rename := Some ''scan''\<rparr>) sample_dt 0
       = ''scan.txt''
   \<and> \<not> has_placeholder path_keys ''~/inbox''
   \<and> expand_path sample_lib ''~/inbox'' sample_dt = [''/'', ''home'', ''user'', ''inbox'']
   \<and> Path ''~/inbox'' = [''~'', ''inbox'']"
  by code_simp

section \<open>Properties of the candidate filter\<close>

lemma stat_vanished:
  "\<not> path_exists w p \<Longrightarrow> \<not> below_file w p \<Longrightarrow> stat_mtime w p = Inl FileNotFoundError"
  by (simp add: path_exists_def stat_mtime_def)

text \<open>
  The \<open>except\<close> clause of \<open>is_candidate_file\<close> catches \<open>FileNotFoundError\<close> only. When the
  file has vanished because a directory above it was replaced by a regular file,
  \<open>stat\<close> raises \<open>NotADirectoryError\<close>, which leaves the function: the statement about
  vanished files needs the directories above the file to be no regular files.
\<close>

lemma stat_below_file: "below_file w p \<Longrightarrow> stat_mtime w p = Inl NotADirectoryError"
  by (simp add: stat_mtime_def)

lemma below_file_not_exists:
  assumes wf: "well_formed w" and b: "below_file w p"
  shows "\<not> path_exists w p"
proof
  assume "path_exists w p"
  then obtain n where "map_of (files w) (abs_path w p) = Some n"
    by (auto simp: path_exists_def lookup_def)
  then have "(abs_path w p, n) \<in> set (files w)" by (rule map_of_SomeD)
  then have l: "list_all (\<lambda>i. dir_at w (take i (abs_path w p))) [1 ..< length (abs_path w p)]"
    using wf by (auto simp: well_formed_def list_all_iff)
  from b have "\<exists>i \<in> set [1 ..< length (abs_path w p)]. \<not> dir_at w (take i (abs_path w p))"
    by (auto simp: below_file_def Let_def list_ex_iff dir_at_def
        split: option.splits node.splits)
  with l show False by (auto simp: list_all_iff)
qed

lemma replaced_directory_raises:
  "is_file inbox_world [''/'', ''dl'', ''!first.txt'']
   \<and> \<not> path_exists replaced_world [''/'', ''dl'', ''!first.txt'']
   \<and> below_file replaced_world [''/'', ''dl'', ''!first.txt'']
   \<and> is_candidate_file_between inbox_world replaced_world [''/'', ''dl'', ''!first.txt'']
         10 [] [] = Inl NotADirectoryError"
  by code_simp

text \<open>
  On a well-formed filesystem nothing is below a regular file as long as the directory
  of the path is a directory.
\<close>

lemma parent_dir_not_below_file:
  assumes wf: "well_formed w" and d: "dir_at w (butlast (abs_path w p))"
  shows "\<not> below_file w p"
proof
  let ?k = "abs_path w p"
  assume "below_file w p"
  then have "\<exists>i \<in> set [1 ..< length ?k]. \<not> dir_at w (take i ?k)"
    by (auto simp: below_file_def Let_def list_ex_iff dir_at_def
        split: option.splits node.splits)
  then obtain i where i: "1 \<le> i" "i < length ?k" and f: "\<not> dir_at w (take i ?k)"
    by auto
  from i have "i \<le> length ?k - 1" by arith
  then have t: "take i ?k = take i (butlast ?k)" by (simp add: butlast_conv_take min_def)
  show False
  proof (cases "i = length (butlast ?k)")
    case True
    with t have "take i ?k = butlast ?k" by simp
    with d f show False by simp
  next
    case False
    with i have "0 < i \<and> i < length (butlast ?k)" by simp
    moreover from d obtain u where "map_of (files w) (butlast ?k) = Some (Dir u)"
      by (auto simp: dir_at_def split: option.splits node.splits)
    then have "(butlast ?k, Dir u) \<in> set (files w)" by (rule map_of_SomeD)
    ultimately have "dir_at w (take i (butlast ?k))"
      using wf by (auto simp: well_formed_def list_all_iff)
    with t f show False by simp
  qed
qed

text \<open>
  C9. A file that is gone when \<open>stat\<close> is called, whether it was still there for
  \<open>is_file\<close> or not, while no directory above it has become a regular file, is not a
  candidate, and no error is raised: the result is the value \<open>False\<close>.
\<close>

theorem vanished_file_not_candidate:
  "\<not> path_exists w' p \<Longrightarrow> \<not> below_file w' p \<Longrightarrow>
     is_candidate_file_between w w' p min_age ign_ext ign_names = Inr False"
  by (simp add: is_candidate_file_between_def stat_vanished)

theorem vanished_file_not_candidate_witness:
  "is_file inbox_world [''/'', ''dl'', ''!first.txt'']
   \<and> \<not> path_exists vanished_world [''/'', ''dl'', ''!first.txt'']
   \<and> is_dir vanished_world [''/'', ''dl'']
   \<and> \<not> below_file vanished_world [''/'', ''dl'', ''!first.txt'']
   \<and> is_candidate_file_between inbox_world vanished_world [''/'', ''dl'', ''!first.txt'']
         10 [] [] = Inr False
   \<and> is_candidate_file inbox_world [''/'', ''dl'', ''!first.txt''] 10 [] [] = Inr True"
proof -
  have a: "is_file inbox_world [''/'', ''dl'', ''!first.txt'']" by code_simp
  have b: "\<not> path_exists vanished_world [''/'', ''dl'', ''!first.txt'']" by code_simp
  have b': "\<not> below_file vanished_world [''/'', ''dl'', ''!first.txt'']" by code_simp
  have d: "is_dir vanished_world [''/'', ''dl'']" by code_simp
  have c: "is_candidate_file inbox_world [''/'', ''dl'', ''!first.txt''] 10 [] [] = Inr True"
    by code_simp
  from a b b' c d vanished_file_not_candidate [OF b b', of inbox_world 10 "[]" "[]"]
  show ?thesis by simp
qed

lemma is_candidate_dir_total:
  "is_candidate_dir w p a =
     Inr (is_dir w p \<and> (case lookup w p of Some n \<Rightarrow> a \<le> clock w - mtime n | None \<Rightarrow> False))"
  by (auto simp: is_candidate_dir_def is_candidate_dir_between_def is_dir_def stat_mtime_def
      split: option.splits node.splits)

lemma dir_skipped_eq:
  "dir_skipped cfg exclude_paths w d =
     Inr (\<not> dir_is_candidate cfg w d \<or> path_name d \<in> set (ignore_names cfg)
          \<or> startswith (path_name d) ''.'' \<or> is_managed_dir w d (get_marker cfg)
          \<or> skip_by_excludes w exclude_paths d)"
proof -
  have c: "is_candidate_dir w d (get_min_age cfg) = Inr (dir_is_candidate cfg w d)"
    by (simp add: is_candidate_dir_total dir_is_candidate_def)
  show ?thesis
    by (cases "dir_is_candidate cfg w d") (simp_all add: dir_skipped_def c)
qed

lemma is_candidate_file_eq:
  "is_candidate_file w p min_age ign_ext ign_names =
     Inr (is_file w p \<and> path_name p \<notin> set ign_names
          \<and> (\<forall>ie \<in> set ign_ext. \<not> endswith (lower (path_name p)) (lower ie))
          \<and> (case lookup w p of Some n \<Rightarrow> min_age \<le> clock w - mtime n | None \<Rightarrow> False))"
  by (auto simp: is_candidate_file_def is_candidate_file_between_def stat_mtime_def is_file_def
      list_ex_iff split: option.splits node.splits)

text \<open>
  C7, as amended. \<open>is_candidate_file\<close> accepts exactly the regular files whose name is
  not in the ignored names, does not end (ignoring case) in an ignored suffix, and whose
  age is at least the threshold; a leading dot plays no part in it. The exclusion of
  dot names and of marked directories belongs to the directory sweep: there a name that
  starts with a dot, or a directory that holds the marker, is skipped.
\<close>

theorem file_candidate_decision:
  "is_candidate_file w p min_age ign_ext ign_names =
     Inr (is_file w p \<and> path_name p \<notin> set ign_names
          \<and> (\<forall>ie \<in> set ign_ext. \<not> endswith (lower (path_name p)) (lower ie))
          \<and> (case lookup w p of Some n \<Rightarrow> min_age \<le> clock w - mtime n | None \<Rightarrow> False))
   \<and> (startswith (path_name d) ''.'' \<longrightarrow> dir_skipped cfg exclude_paths w d = Inr True)
   \<and> (is_managed_dir w d (get_marker cfg) \<longrightarrow> dir_skipped cfg exclude_paths w d = Inr True)"
  by (simp add: is_candidate_file_eq dir_skipped_eq)

theorem file_candidate_decision_witness:
  "is_candidate_file inbox_world [''/'', ''dl'', ''!first.txt''] 10 [''.part''] [''desktop.ini'']
     = Inr True
   \<and> startswith (path_name [''/'', ''dl'', ''.cache'']) ''.''
   \<and> dir_skipped inbox_cfg [] inbox_world [''/'', ''dl'', ''.cache''] = Inr True
   \<and> is_managed_dir inbox_world [''/'', ''dl'', ''docs''] (get_marker inbox_cfg)
   \<and> dir_skipped inbox_cfg [] inbox_world [''/'', ''dl'', ''docs''] = Inr True"
proof -
  have a: "startswith (path_name [''/'', ''dl'', ''.cache'']) ''.''" by code_simp
  have b: "is_managed_dir inbox_world [''/'', ''dl'', ''docs''] (get_marker inbox_cfg)"
    by code_simp
  have c: "is_file inbox_world [''/'', ''dl'', ''!first.txt'']
      \<and> path_name [''/'', ''dl'', ''!first.txt''] \<notin> set [''desktop.ini'']
      \<and> (\<forall>ie \<in> set [''.part''].
            \<not> endswith (lower (path_name [''/'', ''dl'', ''!first.txt''])) (lower ie))
      \<and> (case lookup inbox_world [''/'', ''dl'', ''!first.txt''] of
            Some n \<Rightarrow> 10 \<le> clock inbox_world - mtime n | None \<Rightarrow> False)"
    by code_simp
  from a b c
    file_candidate_decision [of inbox_world "[''/'', ''dl'', ''!first.txt'']" 10 "[''.part'']"
      "[''desktop.ini'']" "[''/'', ''dl'', ''.cache'']" inbox_cfg "[]"]
    file_candidate_decision [of inbox_world "[''/'', ''dl'', ''!first.txt'']" 10 "[''.part'']"
      "[''desktop.ini'']" "[''/'', ''dl'', ''docs'']" inbox_cfg "[]"]
  show ?thesis by simp
qed

text \<open>
  The claim as stated fails for the marker file itself: \<open>.dorg_managed\<close> in the watch
  directory, old enough and on no ignore list, is a candidate.
\<close>

theorem dotfile_candidate_counterexample:
  "startswith (path_name [''/'', ''dl'', ''.dorg_managed'']) ''.''
   \<and> is_file inbox_world [''/'', ''dl'', ''.dorg_managed'']
   \<and> is_candidate_file inbox_world [''/'', ''dl'', ''.dorg_managed''] 10 [''.part'']
        [''desktop.ini''] = Inr True"
  by code_simp

section \<open>Properties of the movers\<close>

lemma unique_candidate_free: "\<not> path_exists w (unique_candidate w d stem ext i c)"
  by (induction w d stem ext i c rule: unique_candidate.induct)
     (subst unique_candidate.simps, simp)

lemma unique_candidate_first:
  "\<not> path_exists w c \<Longrightarrow> unique_candidate w d stem ext i c = c"
  by (subst unique_candidate.simps) simp

lemma unique_candidate_next:
  "path_exists w c \<Longrightarrow>
     \<exists>j > i. unique_candidate w d stem ext i c = joinpath d (numbered stem ext j)
        \<and> (\<forall>k. i < k \<and> k < j \<longrightarrow> path_exists w (joinpath d (numbered stem ext k)))"
proof (induction w d stem ext i c rule: unique_candidate.induct)
  case (1 w d stem ext i c)
  let ?n = "joinpath d (numbered stem ext (Suc i))"
  have u: "unique_candidate w d stem ext i c = unique_candidate w d stem ext (Suc i) ?n"
    using "1.prems" by (subst unique_candidate.simps) simp
  show ?case
  proof (cases "path_exists w ?n")
    case False
    then have "unique_candidate w d stem ext (Suc i) ?n = ?n" by (rule unique_candidate_first)
    with u have "Suc i > i \<and> unique_candidate w d stem ext i c = joinpath d (numbered stem ext (Suc i))
        \<and> (\<forall>k. i < k \<and> k < Suc i \<longrightarrow> path_exists w (joinpath d (numbered stem ext k)))"
      by auto
    then show ?thesis by blast
  next
    case True
    from "1.IH" [OF "1.prems" True] obtain j where j: "j > Suc i"
      "unique_candidate w d stem ext (Suc i) ?n = joinpath d (numbered stem ext j)"
      "\<forall>k. Suc i < k \<and> k < j \<longrightarrow> path_exists w (joinpath d (numbered stem ext k))"
      by blast
    have "\<forall>k. i < k \<and> k < j \<longrightarrow> path_exists w (joinpath d (numbered stem ext k))"
    proof (intro allI impI)
      fix k assume k: "i < k \<and> k < j"
      show "path_exists w (joinpath d (numbered stem ext k))"
      proof (cases "k = Suc i")
        case True
        with \<open>path_exists w ?n\<close> show ?thesis by simp
      next
        case False
        with k have "Suc i < k \<and> k < j" by auto
        with j(3) show ?thesis by blast
      qed
    qed
    with j u have "j > i \<and> unique_candidate w d stem ext i c = joinpath d (numbered stem ext j)
        \<and> (\<forall>k. i < k \<and> k < j \<longrightarrow> path_exists w (joinpath d (numbered stem ext k)))"
      by auto
    then show ?thesis by blast
  qed
qed



lemma calls_set_node [simp]: "calls (set_node k n w) = calls w"
  by (simp add: set_node_def)

lemma calls_touch_parent [simp]: "calls (touch_parent k w) = calls w"
  by (simp add: touch_parent_def split: option.splits node.splits)

lemma calls_record_call [simp]: "calls (record_call c w) = calls w @ [c]"
  by (simp add: record_call_def)

lemma calls_os_rename: "calls (os_rename s d w) = calls w @ [Rename s d]"
  by (simp add: os_rename_def)

lemma not_exists_not_dir: "\<not> path_exists w p \<Longrightarrow> \<not> is_dir w p"
  by (simp add: path_exists_def is_dir_def)

lemma shutil_move_fresh:
  "\<not> path_exists w dst \<Longrightarrow> shutil_move w src dst = Inr w' \<Longrightarrow>
     w' = os_rename (abs_path w src) (abs_path w dst) w"
  by (auto simp: shutil_move_def Let_def not_exists_not_dir
      split: option.splits if_splits node.splits)


lemma Inr_projr: "\<not> isl x \<Longrightarrow> x = Inr (fst (projr x), snd (projr x))"
  by (cases x) auto

section \<open>The mover never overwrites\<close>

lemma well_formed_iff:
  "well_formed w \<longleftrightarrow>
     is_absolute (cwd w)
     \<and> (\<forall>k \<in> fst ` set (files w). \<forall>i. 0 < i \<and> i < length k \<longrightarrow> dir_at w (take i k))"
  by (fastforce simp: well_formed_def list_all_iff)

lemma files_record_call [simp]: "files (record_call c w) = files w"
  by (simp add: record_call_def)

lemma cwd_record_call [simp]: "cwd (record_call c w) = cwd w"
  by (simp add: record_call_def)

lemma cwd_set_node [simp]: "cwd (set_node k n w) = cwd w"
  by (simp add: set_node_def)

lemma cwd_touch_parent [simp]: "cwd (touch_parent k w) = cwd w"
  by (simp add: touch_parent_def split: option.splits node.splits)

lemma map_of_set_node: "map_of (files (set_node k n w)) x = (if x = k then Some n else map_of (files w) x)"
  by (simp add: set_node_def update_conv')

lemma keys_set_node: "fst ` set (files (set_node k n w)) = insert k (fst ` set (files w))"
  by (simp add: set_node_def dom_update)

lemma map_of_touch_parent:
  "map_of (files (touch_parent q w)) x =
     (if x = butlast q \<and> dir_at w x then Some (Dir (clock w)) else map_of (files w) x)"
  by (auto simp: touch_parent_def dir_at_def map_of_set_node split: option.splits node.splits)

lemma keys_touch_parent: "fst ` set (files (touch_parent q w)) = fst ` set (files w)"
proof (cases "map_of (files w) (butlast q)")
  case None
  then show ?thesis by (simp add: touch_parent_def)
next
  case (Some n)
  then have "(butlast q, n) \<in> set (files w)" by (rule map_of_SomeD)
  then have "butlast q \<in> fst ` set (files w)" by force
  with Some show ?thesis
    by (cases n) (auto simp: touch_parent_def keys_set_node)
qed

lemma dir_at_touch_parent [simp]: "dir_at (touch_parent q w) x = dir_at w x"
  by (auto simp: dir_at_def map_of_touch_parent split: option.splits node.splits)

lemma dir_at_record_call [simp]: "dir_at (record_call c w) x = dir_at w x"
  by (simp add: dir_at_def)

lemma dir_at_set_node_dir: "dir_at (set_node q (Dir c) w) x \<longleftrightarrow> x = q \<or> dir_at w x"
  by (simp add: dir_at_def map_of_set_node)

lemma file_touch_parent:
  "map_of (files w) k = Some (File t) \<Longrightarrow> map_of (files (touch_parent q w)) k = Some (File t)"
  by (auto simp: map_of_touch_parent dir_at_def)

lemma mkdir_prefixes_None:
  "map_of (files w) q = None \<Longrightarrow>
     mkdir_prefixes (q # qs) key w = mkdir_prefixes qs key (made_dir q w)"
  by (simp add: made_dir_def)

lemma mkdir_prefixes_Dir:
  "map_of (files w) q = Some (Dir t) \<Longrightarrow> mkdir_prefixes (q # qs) key w = mkdir_prefixes qs key w"
  by simp

lemma mkdir_prefixes_File:
  "map_of (files w) q = Some (File t) \<Longrightarrow> mkdir_prefixes (q # qs) key w \<noteq> Inr w1"
  by simp

lemma made_dir_file:
  "map_of (files w) q = None \<Longrightarrow> map_of (files w) k = Some (File t) \<Longrightarrow>
     map_of (files (made_dir q w)) k = Some (File t)"
  unfolding made_dir_def by (auto intro!: file_touch_parent simp: map_of_set_node)

lemma made_dir_dir_at: "dir_at (made_dir q w) x \<longleftrightarrow> x = q \<or> dir_at w x"
  by (simp add: made_dir_def dir_at_set_node_dir)

lemma made_dir_keys: "fst ` set (files (made_dir q w)) = insert q (fst ` set (files w))"
  by (simp add: made_dir_def keys_touch_parent keys_set_node)

lemma made_dir_cwd [simp]: "cwd (made_dir q w) = cwd w"
  by (simp add: made_dir_def)

lemma made_dir_well_formed:
  assumes wf: "well_formed w"
    and anc: "\<forall>i. 0 < i \<and> i < length q \<longrightarrow> dir_at w (take i q)"
  shows "well_formed (made_dir q w)"
  using assms unfolding well_formed_iff
  by (auto simp: made_dir_keys made_dir_dir_at)

lemma mkdir_prefixes_file:
  "mkdir_prefixes qs key w = Inr w1 \<Longrightarrow> map_of (files w) k = Some (File t) \<Longrightarrow>
     map_of (files w1) k = Some (File t)"
proof (induction qs arbitrary: w)
  case Nil
  then show ?case by simp
next
  case (Cons q qs)
  show ?case
  proof (cases "map_of (files w) q")
    case None
    from Cons.prems(1) have "mkdir_prefixes qs key (made_dir q w) = Inr w1"
      unfolding mkdir_prefixes_None [OF None] .
    moreover from None Cons.prems(2) have "map_of (files (made_dir q w)) k = Some (File t)"
      by (rule made_dir_file)
    ultimately show ?thesis by (rule Cons.IH)
  next
    case (Some n)
    have "mkdir_prefixes qs key w = Inr w1"
    proof (cases n)
      case (File u)
      with Some Cons.prems(1) mkdir_prefixes_File [of w q u qs key w1] show ?thesis by simp
    next
      case (Dir u)
      with Some have d: "map_of (files w) q = Some (Dir u)" by simp
      from Cons.prems(1) show ?thesis unfolding mkdir_prefixes_Dir [OF d] .
    qed
    then show ?thesis using Cons.prems(2) by (rule Cons.IH)
  qed
qed

lemma mkdir_prefixes_well_formed:
  "mkdir_prefixes (map (\<lambda>i. take i key) [m ..< Suc (length key)]) key w = Inr w1 \<Longrightarrow>
   well_formed w \<Longrightarrow> 0 < m \<Longrightarrow> (\<forall>j. 0 < j \<and> j < m \<longrightarrow> dir_at w (take j key)) \<Longrightarrow>
   well_formed w1 \<and> cwd w1 = cwd w
     \<and> (\<forall>j. 0 < j \<and> j \<le> length key \<longrightarrow> dir_at w1 (take j key))"
proof (induction "Suc (length key) - m" arbitrary: m w)
  case 0
  then have "[m ..< Suc (length key)] = []" by simp
  with "0.prems" have "w1 = w" by simp
  moreover have "\<forall>j. 0 < j \<and> j \<le> length key \<longrightarrow> dir_at w (take j key)"
    using "0.prems"(4) "0.hyps" by auto
  ultimately show ?case using "0.prems" by simp
next
  case (Suc x)
  then have m: "m \<le> length key" by simp
  then have up: "[m ..< Suc (length key)] = m # [Suc m ..< Suc (length key)]"
    by (simp add: upt_rec)
  let ?q = "take m key"
  let ?rest = "map (\<lambda>i. take i key) [Suc m ..< Suc (length key)]"
  have x: "x = Suc (length key) - Suc m" using Suc.hyps(2) by simp
  have lq: "length ?q = m" using m by simp
  have anc: "\<forall>i. 0 < i \<and> i < length ?q \<longrightarrow> dir_at w (take i ?q)"
    using Suc.prems(4) lq by (auto simp: min_def)
  show ?case
  proof (cases "map_of (files w) ?q")
    case None
    from Suc.prems(1) have run: "mkdir_prefixes ?rest key (made_dir ?q w) = Inr w1"
      unfolding up list.map mkdir_prefixes_None [OF None] .
    have wf: "well_formed (made_dir ?q w)"
      using Suc.prems(2) anc by (rule made_dir_well_formed)
    have pre: "\<forall>j. 0 < j \<and> j < Suc m \<longrightarrow> dir_at (made_dir ?q w) (take j key)"
      using Suc.prems(4) by (auto simp: made_dir_dir_at less_Suc_eq)
    from Suc.hyps(1) [OF x run wf _ pre] show ?thesis by simp
  next
    case (Some n)
    show ?thesis
    proof (cases n)
      case (File t)
      with Some have f: "map_of (files w) ?q = Some (File t)" by simp
      from Suc.prems(1) have "mkdir_prefixes (?q # ?rest) key w = Inr w1"
        unfolding up list.map .
      with mkdir_prefixes_File [OF f, of ?rest key w1] show ?thesis by simp
    next
      case (Dir t)
      with Some have d: "map_of (files w) ?q = Some (Dir t)" by simp
      from Suc.prems(1) have run: "mkdir_prefixes ?rest key w = Inr w1"
        unfolding up list.map mkdir_prefixes_Dir [OF d] .
      from Some Dir have "dir_at w ?q" by (simp add: dir_at_def)
      with Suc.prems(4) have pre: "\<forall>j. 0 < j \<and> j < Suc m \<longrightarrow> dir_at w (take j key)"
        by (auto simp: less_Suc_eq)
      from Suc.hyps(1) [OF x run Suc.prems(2) _ pre] show ?thesis by simp
    qed
  qed
qed

lemma mkdir_parents_well_formed:
  assumes "mkdir_parents w p = Inr w1" and "well_formed w"
  shows "well_formed w1" and "cwd w1 = cwd w" and "abs_path w p \<noteq> [] \<Longrightarrow> dir_at w1 (abs_path w p)"
proof -
  from assms(1) have "mkdir_prefixes (map (\<lambda>i. take i (abs_path w p)) [1 ..< Suc (length (abs_path w p))])
        (abs_path w p) w = Inr w1"
    by (simp add: mkdir_parents_def Let_def)
  from mkdir_prefixes_well_formed [OF this assms(2)]
  have r: "well_formed w1 \<and> cwd w1 = cwd w
     \<and> (\<forall>j. 0 < j \<and> j \<le> length (abs_path w p) \<longrightarrow> dir_at w1 (take j (abs_path w p)))"
    by simp
  then show "well_formed w1" and "cwd w1 = cwd w" by simp_all
  assume "abs_path w p \<noteq> []"
  with r have "dir_at w1 (take (length (abs_path w p)) (abs_path w p))" by blast
  then show "dir_at w1 (abs_path w p)" by simp
qed

lemma mkdir_parents_file:
  "mkdir_parents w p = Inr w1 \<Longrightarrow> map_of (files w) k = Some (File t) \<Longrightarrow>
     map_of (files w1) k = Some (File t)"
  unfolding mkdir_parents_def Let_def by (rule mkdir_prefixes_file)

lemma map_of_map_key:
  "f k = k \<Longrightarrow> (\<forall>k' \<in> fst ` set xs. f k' = k \<longrightarrow> k' = k) \<Longrightarrow>
     map_of (map (\<lambda>(k, n). (f k, n)) xs) k = map_of xs k"
  by (induction xs) auto

lemma dir_at_key: "dir_at w q \<Longrightarrow> q \<in> fst ` set (files w)"
proof -
  assume "dir_at w q"
  then obtain t where "map_of (files w) q = Some (Dir t)"
    by (auto simp: dir_at_def split: option.splits node.splits)
  then have "(q, Dir t) \<in> set (files w)" by (rule map_of_SomeD)
  then show ?thesis by force
qed

lemma abs_path_nonempty: "is_absolute (cwd w) \<Longrightarrow> abs_path w p \<noteq> []"
  by (auto simp: abs_path_def is_absolute_def split: list.splits)

lemma abs_path_cwd: "cwd w1 = cwd w \<Longrightarrow> abs_path w1 p = abs_path w p"
  by (simp add: abs_path_def)

lemma os_rename_file:
  assumes wf: "well_formed w" and free: "d \<notin> fst ` set (files w)" and d: "d \<noteq> []"
    and k: "map_of (files w) k = Some (File t)" and out: "take (length s) k \<noteq> s"
  shows "map_of (files (os_rename s d w)) k = Some (File t)"
proof (cases "s = d")
  case True
  with k show ?thesis by (simp add: os_rename_def)
next
  case False
  let ?fs = "map (\<lambda>(k, n). (rekey s d k, n)) (filter (\<lambda>(k, n). k \<noteq> d) (files w))"
  from free have flt: "filter (\<lambda>(k, n). k \<noteq> d) (files w) = files w"
    by (force simp: filter_id_conv)
  from k have kin: "k \<in> fst ` set (files w)" by (force dest: map_of_SomeD)
  have same: "rekey s d k = k" using out by (simp add: rekey_def)
  have only: "\<forall>k' \<in> fst ` set (files w). rekey s d k' = k \<longrightarrow> k' = k"
  proof (intro ballI impI)
    fix k' assume k': "k' \<in> fst ` set (files w)" and e: "rekey s d k' = k"
    show "k' = k"
    proof (cases "take (length s) k' = s")
      case False
      with e show ?thesis by (simp add: rekey_def)
    next
      case True
      with e have kd: "k = d @ drop (length s) k'" by (simp add: rekey_def)
      show ?thesis
      proof (cases "drop (length s) k' = []")
        case True
        with kd kin free show ?thesis by simp
      next
        case False
        with kd d have "0 < length d \<and> length d < length k" and "take (length d) k = d" by auto
        with wf kin have "dir_at w d" unfolding well_formed_iff by metis
        with free dir_at_key show ?thesis by blast
      qed
    qed
  qed
  have "map_of ?fs k = map_of (files w) k"
    unfolding flt using same only by (rule map_of_map_key)
  with k have "map_of (files (w\<lparr>files := ?fs\<rparr>)) k = Some (File t)" by simp
  then have "map_of (files (touch_parent d (touch_parent s (w\<lparr>files := ?fs\<rparr>)))) k = Some (File t)"
    by (intro file_touch_parent)
  with False show ?thesis by (simp add: os_rename_def)
qed

lemma splitext_append: "fst (splitext p) @ snd (splitext p) = p"
  by (simp add: splitext_def Let_def)

lemma plain_segment_join:
  assumes "plain_segment s"
  shows "joinpath d s = d @ [s]" and "path_name (joinpath d s) = s"
proof -
  from assms have r: "root_of s = []"
    by (cases s) (auto simp: plain_segment_def root_of_def startswith_def)
  from assms have "segments s = [s]"
    by (simp add: segments_def split_slash_no_slash plain_segment_def)
  with r show j: "joinpath d s = d @ [s]" by (simp add: joinpath_def)
  from assms have "\<not> is_root s" by (auto simp: plain_segment_def is_root_def)
  then show "path_name (joinpath d s) = s" unfolding j by (auto simp: path_name_def)
qed

text \<open>
  C2. Let \<open>move_with_unique\<close> with \<open>ensure_unique = True\<close> return \<open>candidate\<close> on a well-formed
  filesystem. The path \<open>candidate\<close> was unused when it was chosen (in the filesystem
  \<open>w1\<close>, after the destination directory was made). If \<open>dst_dir / target_name\<close> was unused
  it is the result, without suffix. Otherwise the result is \<open>dst_dir / stem_i ext\<close> for
  an \<open>i \<ge> 1\<close> such that every \<open>stem_j ext\<close> with \<open>1 \<le> j < i\<close> was in use: the smallest
  unused suffix, whatever the number of collisions, where \<open>stem\<close> and \<open>ext\<close> split the
  name before its extension. The move is one rename of the source to \<open>candidate\<close>, and
  every regular file that existed before, other than the source (and what is below
  it), is still there with its time stamp: nothing is overwritten.
\<close>

theorem move_with_unique_never_overwrites:
  assumes wf: "well_formed w"
    and mv: "move_with_unique w src dst_dir target_name True = Inr (candidate, w')"
    and sp: "splitext (path_name (joinpath dst_dir target_name)) = (stem, ext)"
  shows "\<exists>w1. mkdir_parents w dst_dir = Inr w1
          \<and> \<not> path_exists w1 candidate
          \<and> (\<not> path_exists w1 (joinpath dst_dir target_name) \<longrightarrow>
                candidate = joinpath dst_dir target_name)
          \<and> (path_exists w1 (joinpath dst_dir target_name) \<longrightarrow>
                (\<exists>i\<ge>1. candidate = joinpath dst_dir (numbered stem ext i)
                   \<and> (\<forall>j. 1 \<le> j \<and> j < i \<longrightarrow> path_exists w1 (joinpath dst_dir (numbered stem ext j)))))
          \<and> w' = os_rename (abs_path w1 src) (abs_path w1 candidate) w1
          \<and> (\<forall>k t. map_of (files w) k = Some (File t) \<and> \<not> at_or_below (abs_path w src) k \<longrightarrow>
                map_of (files w') k = Some (File t))
          \<and> stem @ ext = path_name (joinpath dst_dir target_name)
          \<and> (plain_segment target_name \<longrightarrow>
                joinpath dst_dir target_name = dst_dir @ [target_name] \<and> stem @ ext = target_name)"
proof -
  let ?base = "joinpath dst_dir target_name"
  from mv obtain w1 where mk: "mkdir_parents w dst_dir = Inr w1"
    by (auto simp: move_with_unique_def split: sum.splits)
  let ?c = "unique_candidate w1 dst_dir stem ext 0 ?base"
  from mv mk sp have sm: "shutil_move w1 src ?c = Inr w'" and c: "candidate = ?c"
    by (auto simp: move_with_unique_def Let_def split: sum.splits)
  have free: "\<not> path_exists w1 candidate" unfolding c by (rule unique_candidate_free)
  have first: "\<not> path_exists w1 ?base \<longrightarrow> candidate = ?base"
    unfolding c by (simp add: unique_candidate_first)
  have later: "path_exists w1 ?base \<longrightarrow>
      (\<exists>i\<ge>1. candidate = joinpath dst_dir (numbered stem ext i)
         \<and> (\<forall>j. 1 \<le> j \<and> j < i \<longrightarrow> path_exists w1 (joinpath dst_dir (numbered stem ext j))))"
  proof
    assume "path_exists w1 ?base"
    from unique_candidate_next [OF this, of 0 dst_dir stem ext]
    obtain i where "i > 0" "?c = joinpath dst_dir (numbered stem ext i)"
      "\<forall>k. 0 < k \<and> k < i \<longrightarrow> path_exists w1 (joinpath dst_dir (numbered stem ext k))" by blast
    then have "i \<ge> 1 \<and> candidate = joinpath dst_dir (numbered stem ext i)
         \<and> (\<forall>j. 1 \<le> j \<and> j < i \<longrightarrow> path_exists w1 (joinpath dst_dir (numbered stem ext j)))"
      unfolding c by auto
    then show "\<exists>i\<ge>1. candidate = joinpath dst_dir (numbered stem ext i)
         \<and> (\<forall>j. 1 \<le> j \<and> j < i \<longrightarrow> path_exists w1 (joinpath dst_dir (numbered stem ext j)))"
      by blast
  qed
  from free sm c have w': "w' = os_rename (abs_path w1 src) (abs_path w1 candidate) w1"
    by (simp add: shutil_move_fresh)
  note wf1 = mkdir_parents_well_formed(1) [OF mk wf]
  note cwd1 = mkdir_parents_well_formed(2) [OF mk wf]
  from wf1 have "is_absolute (cwd w1)" by (simp add: well_formed_iff)
  then have ne: "abs_path w1 candidate \<noteq> []" by (rule abs_path_nonempty)
  from free have nk: "abs_path w1 candidate \<notin> fst ` set (files w1)"
    by (simp add: path_exists_key)
  have keep: "\<forall>k t. map_of (files w) k = Some (File t) \<and> \<not> at_or_below (abs_path w src) k \<longrightarrow>
                map_of (files w') k = Some (File t)"
  proof (intro allI impI)
    fix k t
    assume h: "map_of (files w) k = Some (File t) \<and> \<not> at_or_below (abs_path w src) k"
    then have "map_of (files w1) k = Some (File t)" using mk by (simp add: mkdir_parents_file)
    moreover from h have "take (length (abs_path w1 src)) k \<noteq> abs_path w1 src"
      by (simp add: at_or_below_def abs_path_cwd [OF cwd1])
    ultimately show "map_of (files w') k = Some (File t)"
      unfolding w' using wf1 nk ne by (intro os_rename_file)
  qed
  from sp splitext_append [of "path_name ?base"] have se: "stem @ ext = path_name ?base" by simp
  have plain: "plain_segment target_name \<longrightarrow>
                ?base = dst_dir @ [target_name] \<and> stem @ ext = target_name"
    using se plain_segment_join [of target_name dst_dir] by auto
  from mk free first later w' keep se plain show ?thesis by blast
qed

theorem move_with_unique_never_overwrites_witness:
  "well_formed crowded_world
   \<and> splitext (path_name (joinpath [''/'', ''out''] ''a.txt'')) = (''a'', ''.txt'')
   \<and> fst (projr crowded_move) = [''/'', ''out'', ''a_2.txt'']
   \<and> map_of (files (snd (projr crowded_move))) [''/'', ''out'', ''a.txt''] = Some (File 1)
   \<and> map_of (files (snd (projr crowded_move))) [''/'', ''out'', ''a_1.txt''] = Some (File 2)"
proof -
  have wf: "well_formed crowded_world" by code_simp
  have sp: "splitext (path_name (joinpath [''/'', ''out''] ''a.txt'')) = (''a'', ''.txt'')"
    by code_simp
  have ok: "\<not> isl crowded_move" by code_simp
  have res: "fst (projr crowded_move) = [''/'', ''out'', ''a_2.txt'']" by code_simp
  have mv: "move_with_unique crowded_world [''/'', ''dl'', ''a.txt''] [''/'', ''out''] ''a.txt'' True
      = Inr (fst (projr crowded_move), snd (projr crowded_move))"
    using ok unfolding crowded_move_def [symmetric] by (rule Inr_projr)
  have f1: "map_of (files crowded_world) [''/'', ''out'', ''a.txt''] = Some (File 1)
      \<and> \<not> at_or_below (abs_path crowded_world [''/'', ''dl'', ''a.txt'']) [''/'', ''out'', ''a.txt'']"
    by code_simp
  have f2: "map_of (files crowded_world) [''/'', ''out'', ''a_1.txt''] = Some (File 2)
      \<and> \<not> at_or_below (abs_path crowded_world [''/'', ''dl'', ''a.txt'']) [''/'', ''out'', ''a_1.txt'']"
    by code_simp
  from move_with_unique_never_overwrites [OF wf mv sp]
  have keep: "\<forall>k t. map_of (files crowded_world) k = Some (File t)
        \<and> \<not> at_or_below (abs_path crowded_world [''/'', ''dl'', ''a.txt'']) k \<longrightarrow>
        map_of (files (snd (projr crowded_move))) k = Some (File t)"
    by (elim exE conjE)
  from keep f1 have k1: "map_of (files (snd (projr crowded_move))) [''/'', ''out'', ''a.txt''] = Some (File 1)"
    by (elim allE impE) assumption+
  from keep f2 have k2: "map_of (files (snd (projr crowded_move))) [''/'', ''out'', ''a_1.txt''] = Some (File 2)"
    by (elim allE impE) assumption+
  from wf sp res k1 k2 show ?thesis by (intro conjI)
qed

section \<open>The sweep of directories\<close>














section \<open>Properties of a pass\<close>

lemma move_with_unique_target:
  assumes mv: "move_with_unique w src d nm eu = Inr (target, w2)"
    and sp: "splitext (path_name (joinpath d nm)) = (stem, ext)"
  shows "target = joinpath d nm \<or> (eu \<and> (\<exists>i\<ge>1. target = joinpath d (numbered stem ext i)))"
proof (cases eu)
  case False
  with mv show ?thesis by (auto simp: move_with_unique_def Let_def split: sum.splits)
next
  case True
  from mv obtain w1 where mk: "mkdir_parents w d = Inr w1"
    by (auto simp: move_with_unique_def split: sum.splits)
  let ?c = "unique_candidate w1 d stem ext 0 (joinpath d nm)"
  from mv mk sp True have t: "target = ?c"
    by (auto simp: move_with_unique_def Let_def split: sum.splits)
  show ?thesis
  proof (cases "path_exists w1 (joinpath d nm)")
    case False
    then show ?thesis unfolding t by (simp add: unique_candidate_first)
  next
    case e: True
    from unique_candidate_next [OF e, of 0 d stem ext]
    obtain i where "i > 0" "?c = joinpath d (numbered stem ext i)" by blast
    then have "i \<ge> 1 \<and> target = joinpath d (numbered stem ext i)" unfolding t by simp
    with True show ?thesis by blast
  qed
qed

text \<open>
  C10. The file loop builds every name with \<open>counter = 0\<close>, for which the replacement
  table maps \<open>{counter}\<close> to the empty string. Whenever a real step acts on a file, the
  name handed to \<open>move_with_unique\<close> is that expansion, and the path the file arrives at
  is either that name in the destination directory or, when \<open>ensure_unique\<close> holds, that
  name with a suffix \<open>_i\<close>, \<open>i \<ge> 1\<close>, put before its extension by the mover: the only
  source of numbers is the mover.
\<close>

theorem counter_is_always_zero:
  "map_of (name_repl p now 0) ''{counter}'' = Some []
   \<and> (file_step lib cfg now False p (n, w) = Inr (n', w') \<and> n' \<noteq> n \<longrightarrow>
        (\<exists>r td target w1 stem ext.
            match_rule lib p (rules cfg) = Some r \<and> to_dir r = Some td
          \<and> move_with_unique w p (expand_path lib td now) (build_target_name p r now 0)
               (get_ensure_unique r) = Inr (target, w1)
          \<and> build_target_name p r now 0 =
               sanitize bad_chars
                 (replace_all (zip name_keys [stem_of p, ext_of p, fmt_date now, fmt_time now, []])
                    (rename_or_stem r))
               @ (if ext_of p \<noteq> [] then CHR ''.'' # ext_of p else [])
          \<and> splitext (path_name (joinpath (expand_path lib td now) (build_target_name p r now 0)))
               = (stem, ext)
          \<and> (target = joinpath (expand_path lib td now) (build_target_name p r now 0)
               \<or> (get_ensure_unique r
                    \<and> (\<exists>i\<ge>1. target = joinpath (expand_path lib td now) (numbered stem ext i))))
          \<and> n' = n + 1))"
  (is "?zero \<and> ?step")
proof -
  have z: ?zero by (simp add: name_repl_def name_keys_def)
  have s: ?step
  proof (intro impI)
    assume h: "file_step lib cfg now False p (n, w) = Inr (n', w') \<and> n' \<noteq> n"
    then obtain r where r: "match_rule lib p (rules cfg) = Some r"
      by (auto simp: file_step_def Let_def split: sum.splits bool.splits option.splits)
    with h obtain td where td: "to_dir r = Some td"
      by (auto simp: file_step_def Let_def split: sum.splits bool.splits option.splits)
    let ?out = "expand_path lib td now"
    let ?name = "build_target_name p r now 0"
    from h r td obtain target w1 where
      mv: "move_with_unique w p ?out ?name (get_ensure_unique r) = Inr (target, w1)"
      and n: "n' = n + 1"
      by (auto simp: file_step_def Let_def split: sum.splits bool.splits option.splits)
    obtain stem ext where sp: "splitext (path_name (joinpath ?out ?name)) = (stem, ext)"
      by (cases "splitext (path_name (joinpath ?out ?name))") auto
    have e: "?name = sanitize bad_chars
                 (replace_all (zip name_keys [stem_of p, ext_of p, fmt_date now, fmt_time now, []])
                    (rename_or_stem r))
               @ (if ext_of p \<noteq> [] then CHR ''.'' # ext_of p else [])"
      by (simp add: build_target_name_eq name_repl_def)
    from move_with_unique_target [OF mv sp] r td mv e sp n
    show "\<exists>r td target w1 stem ext.
            match_rule lib p (rules cfg) = Some r \<and> to_dir r = Some td
          \<and> move_with_unique w p (expand_path lib td now) (build_target_name p r now 0)
               (get_ensure_unique r) = Inr (target, w1)
          \<and> build_target_name p r now 0 =
               sanitize bad_chars
                 (replace_all (zip name_keys [stem_of p, ext_of p, fmt_date now, fmt_time now, []])
                    (rename_or_stem r))
               @ (if ext_of p \<noteq> [] then CHR ''.'' # ext_of p else [])
          \<and> splitext (path_name (joinpath (expand_path lib td now) (build_target_name p r now 0)))
               = (stem, ext)
          \<and> (target = joinpath (expand_path lib td now) (build_target_name p r now 0)
               \<or> (get_ensure_unique r
                    \<and> (\<exists>i\<ge>1. target = joinpath (expand_path lib td now) (numbered stem ext i))))
          \<and> n' = n + 1"
      by blast
  qed
  from z s show ?thesis by (intro conjI)
qed

theorem counter_is_always_zero_witness:
  "build_target_name [''/'', ''dl'', ''!first.txt''] stamp_rule sample_dt 0 = ''!first_20261103.txt''
   \<and> fst (projr (file_step sample_lib inbox_cfg sample_dt False [''/'', ''dl'', ''!first.txt'']
          (0, inbox_world))) = 0 + 1"
proof -
  let ?p = "[''/'', ''dl'', ''!first.txt'']"
  let ?X = "file_step sample_lib inbox_cfg sample_dt False ?p (0, inbox_world)"
  have a: "build_target_name ?p stamp_rule sample_dt 0 = ''!first_20261103.txt''" by code_simp
  have ok: "\<not> isl ?X" by code_simp
  have ne: "fst (projr ?X) \<noteq> 0" by code_simp
  have x: "?X = Inr (fst (projr ?X), snd (projr ?X))" using ok by (rule Inr_projr)
  from counter_is_always_zero [of ?p sample_dt sample_lib inbox_cfg 0 inbox_world
      "fst (projr ?X)" "snd (projr ?X)", THEN conjunct2, rule_format, OF conjI [OF x ne]]
  have b: "fst (projr ?X) = 0 + 1" by (elim exE conjE)
  from a b show ?thesis by (intro conjI)
qed

section \<open>Dry runs\<close>

lemma same_fs_refl [simp]: "same_fs w w"
  by (simp add: same_fs_def)

lemma same_fs_record_call [simp]: "same_fs w (record_call c w)"
  by (simp add: same_fs_def record_call_def)

lemma same_fs_trans: "same_fs a b \<Longrightarrow> same_fs b c \<Longrightarrow> same_fs a c"
  by (simp add: same_fs_def)

lemma same_fs_reads:
  assumes "same_fs w w'"
  shows "abs_path w' = abs_path w" and "lookup w' = lookup w" and "resolve w' = resolve w"
    and "path_exists w' = path_exists w" and "is_file w' = is_file w" and "is_dir w' = is_dir w"
    and "stat_mtime w' = stat_mtime w" and "iterdir w' = iterdir w"
proof -
  from assms show a: "abs_path w' = abs_path w" by (auto simp: same_fs_def abs_path_def)
  from assms a show l: "lookup w' = lookup w" by (auto simp: same_fs_def lookup_def)
  from a show "resolve w' = resolve w" by (auto simp: resolve_def)
  from l show "path_exists w' = path_exists w" by (auto simp: path_exists_def)
  from assms a have b: "below_file w' = below_file w"
    by (auto simp: same_fs_def below_file_def)
  from l b show "is_file w' = is_file w" by (auto simp: is_file_def)
  from l b show "is_dir w' = is_dir w" by (auto simp: is_dir_def)
  from l b show "stat_mtime w' = stat_mtime w" by (auto simp: stat_mtime_def)
  from assms a have cn: "child_names w' = child_names w"
    by (auto simp: child_names_def same_fs_def)
  show "iterdir w' = iterdir w"
    by (intro ext) (simp add: iterdir_def l b cn cong: option.case_cong node.case_cong)
qed

lemma same_fs_candidate:
  assumes "same_fs w w'"
  shows "is_candidate_file w' = is_candidate_file w" and "is_candidate_dir w' = is_candidate_dir w"
    and "is_managed_dir w' = is_managed_dir w" and "skip_by_excludes w' = skip_by_excludes w"
    and "dir_skipped cfg ex w' = dir_skipped cfg ex w"
    and "build_unmanaged_exclude_paths lib cfg now w' = build_unmanaged_exclude_paths lib cfg now w"
    and "file_selected lib cfg w' = file_selected lib cfg w"
    and "dir_selected cfg ex w' = dir_selected cfg ex w"
proof -
  note r = same_fs_reads [OF assms]
  from assms have c: "clock w' = clock w" by (simp add: same_fs_def)
  show f: "is_candidate_file w' = is_candidate_file w"
    by (intro ext) (simp add: is_candidate_file_eq r c cong: option.case_cong)
  show d: "is_candidate_dir w' = is_candidate_dir w"
    by (intro ext) (simp add: is_candidate_dir_total r c cong: option.case_cong node.case_cong)
  show m: "is_managed_dir w' = is_managed_dir w"
    by (intro ext) (simp add: is_managed_dir_def r)
  show s: "skip_by_excludes w' = skip_by_excludes w"
    by (intro ext) (simp add: skip_by_excludes_def r)
  show k: "dir_skipped cfg ex w' = dir_skipped cfg ex w"
    by (intro ext) (simp add: dir_skipped_def d m s)
  have "rule_exclude lib now w' = rule_exclude lib now w"
    by (intro ext) (simp add: rule_exclude_def r cong: option.case_cong list.case_cong if_cong)
  then show "build_unmanaged_exclude_paths lib cfg now w' = build_unmanaged_exclude_paths lib cfg now w"
    by (intro ext) (simp add: build_unmanaged_exclude_paths_def r)
  show "file_selected lib cfg w' = file_selected lib cfg w"
    by (intro ext) (simp add: file_selected_def f)
  show "dir_selected cfg ex w' = dir_selected cfg ex w"
    by (intro ext) (simp add: dir_selected_def k)
qed

lemma is_candidate_file_Inr: "\<exists>b. is_candidate_file w p a ie ign = Inr b"
  by (simp add: is_candidate_file_eq)

lemma dir_skipped_Inr: "\<exists>b. dir_skipped cfg ex w d = Inr b"
  by (simp add: dir_skipped_eq)

lemma file_step_not_selected:
  "\<not> file_selected lib cfg w p \<Longrightarrow> file_step lib cfg now dry p (n, w) = Inr (n, w)"
proof -
  assume ns: "\<not> file_selected lib cfg w p"
  obtain b where b: "is_candidate_file w p (get_min_age cfg) (ignore_ext cfg) (ignore_names cfg) = Inr b"
    using is_candidate_file_Inr by blast
  show ?thesis
  proof (cases b)
    case False
    with b show ?thesis by (simp add: file_step_def)
  next
    case True
    with b ns have "match_rule lib p (rules cfg) = None" by (simp add: file_selected_def)
    with b True show ?thesis by (simp add: file_step_def)
  qed
qed

lemma file_step_dry_selected:
  "file_selected lib cfg w p \<Longrightarrow> file_step lib cfg now True p (n, w) = Inr st \<Longrightarrow> st = (n + 1, w)"
  by (auto simp: file_selected_def file_step_def Let_def split: option.splits)

lemma file_step_real_selected:
  "file_selected lib cfg w p \<Longrightarrow> file_step lib cfg now False p (n, w) = Inr (n', w') \<Longrightarrow> n' = n + 1"
  by (auto simp: file_selected_def file_step_def Let_def split: option.splits sum.splits)

lemma file_step_dry:
  "file_step lib cfg now True p (n, w) = Inr st \<Longrightarrow>
     st = (n + (if file_selected lib cfg w p then 1 else 0), w)"
  using file_step_not_selected [of lib cfg w p now True n]
    file_step_dry_selected [of lib cfg w p now n st]
  by (cases "file_selected lib cfg w p") auto

lemma file_loop_dry:
  "file_loop lib cfg now True ps (n, w) = Inr st \<Longrightarrow>
     st = (n + length (filter (file_selected lib cfg w) ps), w)"
proof (induction ps arbitrary: n)
  case Nil
  then show ?case by simp
next
  case (Cons p ps)
  from Cons.prems obtain st1 where s1: "file_step lib cfg now True p (n, w) = Inr st1"
    and l: "file_loop lib cfg now True ps st1 = Inr st"
    by (auto split: sum.splits)
  from file_step_dry [OF s1] have e: "st1 = (n + (if file_selected lib cfg w p then 1 else 0), w)" .
  from l Cons.IH [of "n + (if file_selected lib cfg w p then 1 else 0)"] e
  show ?case by auto
qed

lemma dir_step_not_selected:
  "\<not> dir_selected cfg ex w d \<Longrightarrow> dir_step cfg dry ex root d (n, w) = Inr (n, w)"
  using dir_skipped_Inr [of cfg ex w d] by (auto simp: dir_selected_def dir_step_def)

lemma dir_step_dry:
  "dir_step cfg True ex root d (n, w) = Inr st \<Longrightarrow>
     st = (n + (if dir_selected cfg ex w d then 1 else 0), w)"
  using dir_step_not_selected [of cfg ex w d True root n]
  by (cases "dir_selected cfg ex w d") (auto simp: dir_selected_def dir_step_def)

lemma dir_step_real_selected:
  "dir_selected cfg ex w d \<Longrightarrow> dir_step cfg False ex root d (n, w) = Inr (n', w') \<Longrightarrow> n' = n + 1"
  by (auto simp: dir_selected_def dir_step_def split: sum.splits)

lemma dir_loop_dry:
  "dir_loop cfg True ex root ds (n, w) = Inr st \<Longrightarrow>
     st = (n + length (filter (dir_selected cfg ex w) ds), w)"
proof (induction ds arbitrary: n)
  case Nil
  then show ?case by simp
next
  case (Cons d ds)
  from Cons.prems obtain st1 where s1: "dir_step cfg True ex root d (n, w) = Inr st1"
    and l: "dir_loop cfg True ex root ds st1 = Inr st"
    by (auto split: sum.splits)
  from dir_step_dry [OF s1] have e: "st1 = (n + (if dir_selected cfg ex w d then 1 else 0), w)" .
  from l Cons.IH [of "n + (if dir_selected cfg ex w d then 1 else 0)"] e
  show ?case by auto
qed

lemma file_loop_none_selected:
  "\<forall>p \<in> set ps. \<not> file_selected lib cfg w p \<Longrightarrow>
     file_loop lib cfg now dry ps (n, w) = Inr (n, w)"
  by (induction ps) (simp_all add: file_step_not_selected)

lemma dir_loop_none_selected:
  "\<forall>d \<in> set ds. \<not> dir_selected cfg ex w d \<Longrightarrow>
     dir_loop cfg dry ex root ds (n, w) = Inr (n, w)"
  by (induction ds) (simp_all add: dir_step_not_selected)

lemma filter_empty_length: "length (filter P xs) = 0 \<Longrightarrow> \<forall>x \<in> set xs. \<not> P x"
  by (simp add: filter_empty_conv)

lemma file_step_real_dry:
  assumes "file_step lib cfg now False p (m, v) = Inr (m', v')"
  shows "file_step lib cfg now True p (m, v) = Inr (m', v)"
proof (cases "file_selected lib cfg v p")
  case False
  with assms show ?thesis by (simp add: file_step_not_selected)
next
  case True
  from file_step_real_selected [OF True assms] have m: "m' = m + 1" .
  from True obtain r where r: "match_rule lib p (rules cfg) = Some r"
    and c: "is_candidate_file v p (get_min_age cfg) (ignore_ext cfg) (ignore_names cfg) = Inr True"
    by (auto simp: file_selected_def)
  from assms r c obtain td where "to_dir r = Some td"
    by (cases "to_dir r") (auto simp: file_step_def)
  with r c m show ?thesis by (simp add: file_step_def Let_def)
qed

lemma dir_step_real_dry:
  assumes "dir_step cfg False ex root d (m, v) = Inr (m', v')"
  shows "dir_step cfg True ex root d (m, v) = Inr (m', v)"
proof (cases "dir_selected cfg ex v d")
  case False
  with assms show ?thesis by (simp add: dir_step_not_selected)
next
  case True
  from dir_step_real_selected [OF True assms] have "m' = m + 1" .
  with True show ?thesis by (simp add: dir_selected_def dir_step_def)
qed

lemma same_fs_listed [simp]: "same_fs w (listed w p es)"
  by (simp add: listed_def)

lemma scandir_eq:
  "scandir w p = (case iterdir w p of Inl e \<Rightarrow> Inl e | Inr es \<Rightarrow> Inr (es, listed w p es))"
  by (simp add: scandir_def listed_def split: sum.splits)

lemma process_once_missing:
  "\<not> path_exists w (expand_path lib (watch_dir cfg) now) \<Longrightarrow>
     process_once lib cfg now dry w = Inr (0, w)"
  by (simp add: process_once_def Let_def)

lemma process_once_listed:
  assumes "path_exists w (expand_path lib (watch_dir cfg) now)"
    and "iterdir w (expand_path lib (watch_dir cfg) now) = Inr es"
  shows "process_once lib cfg now dry w =
     (case file_loop lib cfg now dry (sort es)
             (0, listed w (expand_path lib (watch_dir cfg) now) es) of
        Inl e \<Rightarrow> Inl e
      | Inr st \<Rightarrow>
          if collect_unmanaged_dirs cfg
          then dir_phase lib cfg now dry (expand_path lib (watch_dir cfg) now) st
          else Inr st)"
  using assms by (simp add: process_once_def scandir_eq Let_def)

lemma process_once_unlisted:
  assumes "path_exists w (expand_path lib (watch_dir cfg) now)"
    and "iterdir w (expand_path lib (watch_dir cfg) now) = Inl e"
  shows "process_once lib cfg now dry w = Inl e"
  using assms by (simp add: process_once_def scandir_eq Let_def)

lemma dir_phase_listed:
  assumes "iterdir w wdir = Inr es"
  shows "dir_phase lib cfg now dry wdir (n, w) =
     dir_loop cfg dry (build_unmanaged_exclude_paths lib cfg now w (resolve w wdir))
       (expand_path lib (get_unmanaged_dir_target cfg) now) (sort es) (n, listed w wdir es)"
  using assms by (simp add: dir_phase_def scandir_eq Let_def)

lemma iterdir_missing: "\<not> path_exists w p \<Longrightarrow> \<exists>e. iterdir w p = Inl e"
  by (simp add: path_exists_def iterdir_def)

lemma process_once_dry:
  assumes "process_once lib cfg now True w = Inr (n, w')"
  shows "same_fs w w' \<and> (\<exists>reads. calls w' = calls w @ reads \<and> list_all is_scandir reads)
         \<and> n = dry_count lib cfg now w"
proof -
  let ?wdir = "expand_path lib (watch_dir cfg) now"
  show ?thesis
  proof (cases "path_exists w ?wdir")
    case False
    with assms have "n = 0" "w' = w" by (simp_all add: process_once_missing)
    moreover from iterdir_missing [OF False] have "dry_count lib cfg now w = 0"
      by (auto simp: dry_count_def)
    ultimately show ?thesis by simp
  next
    case True
    show ?thesis
    proof (cases "iterdir w ?wdir")
      case (Inl e)
      with True assms show ?thesis by (simp add: process_once_unlisted)
    next
      case (Inr es)
      let ?w1 = "listed w ?wdir es"
      have s1: "same_fs w ?w1" by simp
      note po = process_once_listed [OF True Inr, of True]
      from assms po obtain st where fl: "file_loop lib cfg now True (sort es) (0, ?w1) = Inr st"
        by (cases "file_loop lib cfg now True (sort es) (0, ?w1)") auto
      let ?k = "length (filter (file_selected lib cfg w) (sort es))"
      from file_loop_dry [OF fl] have st: "st = (?k, ?w1)"
        by (simp add: same_fs_candidate(7) [OF s1])
      have c1: "calls ?w1 = calls w @ [Scandir (abs_path w ?wdir) es]"
        by (simp add: listed_def)
      show ?thesis
      proof (cases "collect_unmanaged_dirs cfg")
        case False
        from assms have "Inr (n, w') = process_once lib cfg now True w" by simp
        also have "\<dots> = Inr (?k, ?w1)" using False by (simp add: po fl st)
        finally have r: "n = ?k" "w' = ?w1" by simp_all
        from False Inr have d: "dry_count lib cfg now w = ?k"
          by (simp add: dry_count_def)
        have "calls w' = calls w @ [Scandir (abs_path w ?wdir) es]
            \<and> list_all is_scandir [Scandir (abs_path w ?wdir) es]"
          by (simp add: r c1 is_scandir_def)
        then have e: "\<exists>reads. calls w' = calls w @ reads \<and> list_all is_scandir reads" by blast
        from s1 r d e show ?thesis by simp
      next
        case True
        let ?ex = "build_unmanaged_exclude_paths lib cfg now w (resolve w ?wdir)"
        let ?root = "expand_path lib (get_unmanaged_dir_target cfg) now"
        let ?w2 = "listed ?w1 ?wdir es"
        from Inr have i1: "iterdir ?w1 ?wdir = Inr es" by (simp add: same_fs_reads(8) [OF s1])
        have ex1: "build_unmanaged_exclude_paths lib cfg now ?w1 (resolve ?w1 ?wdir) = ?ex"
          by (simp add: same_fs_candidate(6) [OF s1] same_fs_reads(3) [OF s1])
        from assms have "Inr (n, w') = process_once lib cfg now True w" by simp
        also have "\<dots> = dir_phase lib cfg now True ?wdir (?k, ?w1)"
          using True by (simp add: po fl st)
        finally have "dir_phase lib cfg now True ?wdir (?k, ?w1) = Inr (n, w')" by simp
        then have dl: "dir_loop cfg True ?ex ?root (sort es) (?k, ?w2) = Inr (n, w')"
          by (simp add: dir_phase_listed [OF i1] ex1)
        have s2: "same_fs w ?w2" by (rule same_fs_trans [OF s1]) simp
        let ?l = "length (filter (dir_selected cfg ?ex w) (sort es))"
        from dir_loop_dry [OF dl] have r: "n = ?k + ?l" "w' = ?w2"
          by (simp_all add: same_fs_candidate(8) [OF s2])
        have c2: "calls ?w2 = calls w @ [Scandir (abs_path w ?wdir) es, Scandir (abs_path ?w1 ?wdir) es]"
          by (simp add: listed_def)
        from True Inr have d: "dry_count lib cfg now w = ?k + ?l"
          by (simp add: dry_count_def Let_def)
        have "calls w' = calls w @ [Scandir (abs_path w ?wdir) es, Scandir (abs_path ?w1 ?wdir) es]
            \<and> list_all is_scandir [Scandir (abs_path w ?wdir) es, Scandir (abs_path ?w1 ?wdir) es]"
          by (simp add: r c2 is_scandir_def)
        then have e: "\<exists>reads. calls w' = calls w @ reads \<and> list_all is_scandir reads" by blast
        from s2 r d e show ?thesis by simp
      qed
    qed
  qed
qed

lemma process_once_nothing_to_do:
  assumes "process_once lib cfg now True w = Inr (0, w')"
  shows "process_once lib cfg now False w = Inr (0, w')"
proof -
  let ?wdir = "expand_path lib (watch_dir cfg) now"
  show ?thesis
  proof (cases "path_exists w ?wdir")
    case False
    with assms show ?thesis by (simp add: process_once_missing)
  next
    case True
    show ?thesis
    proof (cases "iterdir w ?wdir")
      case (Inl e)
      with True assms show ?thesis by (simp add: process_once_unlisted)
    next
      case (Inr es)
      let ?w1 = "listed w ?wdir es"
      note po = process_once_listed [OF True Inr]
      from assms po [of True] obtain st where fl: "file_loop lib cfg now True (sort es) (0, ?w1) = Inr st"
        by (cases "file_loop lib cfg now True (sort es) (0, ?w1)") auto
      let ?k = "length (filter (file_selected lib cfg ?w1) (sort es))"
      from file_loop_dry [OF fl] have st: "st = (?k, ?w1)" by simp
      show ?thesis
      proof (cases "collect_unmanaged_dirs cfg")
        case False
        from assms have "Inr (0, w') = process_once lib cfg now True w" by simp
        also have "\<dots> = Inr (?k, ?w1)" using False by (simp add: po [of True] fl st)
        finally have k: "?k = 0" and w': "w' = ?w1" by simp_all
        from k have "\<forall>p \<in> set (sort es). \<not> file_selected lib cfg ?w1 p"
          by (rule filter_empty_length)
        then have "file_loop lib cfg now False (sort es) (0, ?w1) = Inr (0, ?w1)"
          by (rule file_loop_none_selected)
        with False w' show ?thesis by (simp add: po [of False])
      next
        case True
        let ?ex = "build_unmanaged_exclude_paths lib cfg now ?w1 (resolve ?w1 ?wdir)"
        let ?root = "expand_path lib (get_unmanaged_dir_target cfg) now"
        let ?w2 = "listed ?w1 ?wdir es"
        have s1: "same_fs w ?w1" by simp
        from Inr have i1: "iterdir ?w1 ?wdir = Inr es" by (simp add: same_fs_reads(8) [OF s1])
        from assms have "Inr (0, w') = process_once lib cfg now True w" by simp
        also have "\<dots> = dir_phase lib cfg now True ?wdir (?k, ?w1)"
          using True by (simp add: po [of True] fl st)
        finally have "dir_phase lib cfg now True ?wdir (?k, ?w1) = Inr (0, w')" by simp
        then have dl: "dir_loop cfg True ?ex ?root (sort es) (?k, ?w2) = Inr (0, w')"
          by (simp add: dir_phase_listed [OF i1])
        let ?l = "length (filter (dir_selected cfg ?ex ?w2) (sort es))"
        from dir_loop_dry [OF dl] have r: "0 = ?k + ?l" "w' = ?w2" by simp_all
        then have k: "?k = 0" and l: "?l = 0" by simp_all
        from k have "\<forall>p \<in> set (sort es). \<not> file_selected lib cfg ?w1 p"
          by (rule filter_empty_length)
        then have f: "file_loop lib cfg now False (sort es) (0, ?w1) = Inr (0, ?w1)"
          by (rule file_loop_none_selected)
        from l have "\<forall>d \<in> set (sort es). \<not> dir_selected cfg ?ex ?w2 d"
          by (rule filter_empty_length)
        then have "dir_loop cfg False ?ex ?root (sort es) (0, ?w2) = Inr (0, ?w2)"
          by (rule dir_loop_none_selected)
        then have "dir_phase lib cfg now False ?wdir (0, ?w1) = Inr (0, ?w2)"
          by (simp add: dir_phase_listed [OF i1])
        with True f r show ?thesis by (simp add: po [of False])
      qed
    qed
  qed
qed

text \<open>
  C5, as amended. A dry run that returns leaves the filesystem, the working directory
  and the time as they were: the only calls it makes read the listing. It returns the
  number of entries that pass the filters on that unchanged filesystem: the candidate
  files with a matching rule and, when the sweep is enabled, the directories the sweep
  does not skip. On one and the same filesystem state a dry step counts an entry exactly
  as the real step that acts on it does, and when the dry run counts nothing the real
  run returns 0 and changes nothing either. A real run, however, evaluates the filters
  after each of its own moves, so its total need not be the dry count.
\<close>

theorem dry_run_counts_without_moving:
  "(process_once lib cfg now True w = Inr (n, w') \<longrightarrow>
      same_fs w w' \<and> (\<exists>reads. calls w' = calls w @ reads \<and> list_all is_scandir reads)
      \<and> n = dry_count lib cfg now w)
   \<and> (file_step lib cfg now False p (m, v) = Inr (m', v') \<longrightarrow>
        file_step lib cfg now True p (m, v) = Inr (m', v))
   \<and> (dir_step cfg False exclude_paths target_root d (m, v) = Inr (m', v') \<longrightarrow>
        dir_step cfg True exclude_paths target_root d (m, v) = Inr (m', v))
   \<and> (process_once lib cfg now True w = Inr (0, w') \<longrightarrow>
        process_once lib cfg now False w = Inr (0, w'))"
  (is "?frame \<and> ?file \<and> ?dir \<and> ?idle")
proof -
  have a: ?frame using process_once_dry [of lib cfg now w n w'] by blast
  have b: ?file using file_step_real_dry [of lib cfg now p m v m' v'] by blast
  have c: ?dir using dir_step_real_dry [of cfg exclude_paths target_root d m v m' v'] by blast
  have d: ?idle using process_once_nothing_to_do [of lib cfg now w w'] by blast
  from a b c d show ?thesis by (intro conjI)
qed

theorem dry_run_counts_without_moving_witness:
  "fst (projr inbox_dry) = 3
   \<and> same_fs inbox_world (snd (projr inbox_dry))
   \<and> dry_count sample_lib inbox_cfg sample_dt inbox_world = 3
   \<and> fst (projr inbox_idle) = 0
   \<and> process_once sample_lib idle_cfg sample_dt False inbox_world = Inr (0, snd (projr inbox_idle))"
proof -
  have ok: "\<not> isl inbox_dry" by code_simp
  have n: "fst (projr inbox_dry) = 3" by code_simp
  have d: "process_once sample_lib inbox_cfg sample_dt True inbox_world
      = Inr (fst (projr inbox_dry), snd (projr inbox_dry))"
    using ok unfolding inbox_dry_def [symmetric] by (rule Inr_projr)
  note t = dry_run_counts_without_moving [of sample_lib inbox_cfg sample_dt inbox_world
      "fst (projr inbox_dry)" "snd (projr inbox_dry)"]
  note f = t [THEN conjunct1, rule_format, OF d]
  have s: "same_fs inbox_world (snd (projr inbox_dry))"
    using f by (rule conjunct1)
  have c: "fst (projr inbox_dry) = dry_count sample_lib inbox_cfg sample_dt inbox_world"
    using f [THEN conjunct2] by (rule conjunct2)
  from c n have c': "dry_count sample_lib inbox_cfg sample_dt inbox_world = 3" by simp
  have ok2: "\<not> isl inbox_idle" by code_simp
  have z: "fst (projr inbox_idle) = 0" by code_simp
  have "process_once sample_lib idle_cfg sample_dt True inbox_world
      = Inr (fst (projr inbox_idle), snd (projr inbox_idle))"
    using ok2 unfolding inbox_idle_def [symmetric] by (rule Inr_projr)
  then have i: "process_once sample_lib idle_cfg sample_dt True inbox_world
      = Inr (0, snd (projr inbox_idle))" by (simp only: z)
  note u = dry_run_counts_without_moving [of sample_lib idle_cfg sample_dt inbox_world
      0 "snd (projr inbox_idle)"]
  from u [THEN conjunct2, THEN conjunct2, THEN conjunct2, rule_format, OF i]
  have r: "process_once sample_lib idle_cfg sample_dt False inbox_world
      = Inr (0, snd (projr inbox_idle))" .
  from n s c' z r show ?thesis by (intro conjI)
qed

text \<open>
  The claim as stated fails on the sample watch directory: the dry run counts the text
  file, the marker file and the stray directory; the real run moves the text file within
  the watch directory, touches the marker there, finds the marker file too young and
  returns 2.
\<close>

theorem dry_run_count_counterexample:
  "map_sum id fst inbox_dry = Inr 3 \<and> map_sum id fst inbox_real = Inr 2"
  by code_simp

section \<open>How often a pass reads the listing\<close>

lemma scans_set_node [simp]: "scans (set_node k n w) = scans w"
  by (simp add: scans_def)

lemma scans_touch_parent [simp]: "scans (touch_parent k w) = scans w"
  by (simp add: scans_def)

lemma scans_record_call: "scans (record_call c w) = scans w @ (if is_scandir c then [c] else [])"
  by (simp add: scans_def)

lemma scans_made_dir [simp]: "scans (made_dir q w) = scans w"
  by (simp add: made_dir_def scans_record_call is_scandir_def)

lemma scans_listed: "scans (listed w p es) = scans w @ [Scandir (abs_path w p) es]"
  by (simp add: listed_def scans_record_call is_scandir_def)

lemma scans_os_rename [simp]: "scans (os_rename s d w) = scans w"
  by (simp add: scans_def calls_os_rename is_scandir_def)

lemma scans_mkdir_prefixes: "mkdir_prefixes qs key w = Inr w1 \<Longrightarrow> scans w1 = scans w"
proof (induction qs arbitrary: w)
  case Nil
  then show ?case by simp
next
  case (Cons q qs)
  show ?case
  proof (cases "map_of (files w) q")
    case None
    from Cons.prems have "mkdir_prefixes qs key (made_dir q w) = Inr w1"
      unfolding mkdir_prefixes_None [OF None] .
    from Cons.IH [OF this] show ?thesis by simp
  next
    case (Some n)
    show ?thesis
    proof (cases n)
      case (File u)
      with Some Cons.prems mkdir_prefixes_File [of w q u qs key w1] show ?thesis by simp
    next
      case (Dir u)
      with Some have d: "map_of (files w) q = Some (Dir u)" by simp
      from Cons.prems have "mkdir_prefixes qs key w = Inr w1"
        unfolding mkdir_prefixes_Dir [OF d] .
      then show ?thesis by (rule Cons.IH)
    qed
  qed
qed

lemma scans_mkdir_parents: "mkdir_parents w p = Inr w1 \<Longrightarrow> scans w1 = scans w"
  unfolding mkdir_parents_def Let_def by (rule scans_mkdir_prefixes)

lemma scans_shutil_move: "shutil_move w src dst = Inr w1 \<Longrightarrow> scans w1 = scans w"
  by (auto simp: shutil_move_def Let_def split: option.splits if_splits node.splits)

lemma scans_mark_managed_dir [simp]: "scans (mark_managed_dir w d m) = scans w"
  by (simp add: mark_managed_dir_def Let_def scans_record_call is_scandir_def
      split: option.splits node.splits)

lemma scans_move_with_unique:
  "move_with_unique w src d nm eu = Inr (t, w1) \<Longrightarrow> scans w1 = scans w"
  by (auto simp: move_with_unique_def Let_def scans_mkdir_parents
      split: sum.splits prod.splits if_splits dest!: scans_shutil_move)

lemma scans_move_dir_with_unique:
  "move_dir_with_unique w src d eu = Inr (t, w1) \<Longrightarrow> scans w1 = scans w"
  by (auto simp: move_dir_with_unique_def Let_def scans_mkdir_parents
      split: sum.splits if_splits dest!: scans_shutil_move)

lemma scans_file_step:
  assumes "file_step lib cfg now dry p (n, w) = Inr (n', w')"
  shows "scans w' = scans w"
proof (cases "file_selected lib cfg w p")
  case False
  with assms show ?thesis by (simp add: file_step_not_selected)
next
  case True
  then obtain r where r: "match_rule lib p (rules cfg) = Some r"
    and c: "is_candidate_file w p (get_min_age cfg) (ignore_ext cfg) (ignore_names cfg) = Inr True"
    by (auto simp: file_selected_def)
  from assms r c obtain td where td: "to_dir r = Some td"
    by (cases "to_dir r") (auto simp: file_step_def)
  show ?thesis
  proof (cases dry)
    case True
    with assms r c td show ?thesis by (simp add: file_step_def Let_def)
  next
    case False
    with assms r c td obtain t w1 where
      mv: "move_with_unique w p (expand_path lib td now) (build_target_name p r now 0)
             (get_ensure_unique r) = Inr (t, w1)"
      and w': "w' = mark_managed_dir w1 (expand_path lib td now) (get_marker cfg)"
      by (auto simp: file_step_def Let_def split: sum.splits)
    from scans_move_with_unique [OF mv] w' show ?thesis by simp
  qed
qed

lemma scans_file_loop:
  "file_loop lib cfg now dry ps (n, w) = Inr (n', w') \<Longrightarrow> scans w' = scans w"
proof (induction ps arbitrary: n w)
  case Nil
  then show ?case by simp
next
  case (Cons p ps)
  from Cons.prems obtain n1 w1 where s: "file_step lib cfg now dry p (n, w) = Inr (n1, w1)"
    and l: "file_loop lib cfg now dry ps (n1, w1) = Inr (n', w')"
    by (auto split: sum.splits)
  from Cons.IH [OF l] scans_file_step [OF s] show ?case by simp
qed

lemma scans_dir_step:
  assumes "dir_step cfg dry ex root d (n, w) = Inr (n', w')"
  shows "scans w' = scans w"
proof (cases "dir_selected cfg ex w d")
  case False
  with assms show ?thesis by (simp add: dir_step_not_selected)
next
  case True
  show ?thesis
  proof (cases dry)
    case dry: True
    with assms True show ?thesis by (simp add: dir_selected_def dir_step_def)
  next
    case False
    with assms True obtain t where "move_dir_with_unique w d root True = Inr (t, w')"
      by (auto simp: dir_selected_def dir_step_def split: sum.splits)
    then show ?thesis by (rule scans_move_dir_with_unique)
  qed
qed

lemma scans_dir_loop:
  "dir_loop cfg dry ex root ds (n, w) = Inr (n', w') \<Longrightarrow> scans w' = scans w"
proof (induction ds arbitrary: n w)
  case Nil
  then show ?case by simp
next
  case (Cons d ds)
  from Cons.prems obtain n1 w1 where s: "dir_step cfg dry ex root d (n, w) = Inr (n1, w1)"
    and l: "dir_loop cfg dry ex root ds (n1, w1) = Inr (n', w')"
    by (auto split: sum.splits)
  from Cons.IH [OF l] scans_dir_step [OF s] show ?case by simp
qed

text \<open>
  C8, as amended. A pass that finds the watch directory and returns reads its listing
  once for the file phase and, when the sweep is enabled, a second time for the
  directory phase: one read without the sweep, two with it. The second read is taken in
  the world \<open>w1\<close> that the file phase has left, and the directory loop runs over that
  second listing.
\<close>

theorem listing_is_read_per_phase:
  assumes run: "process_once lib cfg now dry w = Inr (n, w')"
    and wdir: "wdir = expand_path lib (watch_dir cfg) now"
    and ex: "path_exists w wdir"
  shows "length (scans w') = length (scans w) + (if collect_unmanaged_dirs cfg then 2 else 1)
       \<and> (\<exists>es n1 w1.
           iterdir w wdir = Inr es
         \<and> file_loop lib cfg now dry (sort es) (0, listed w wdir es) = Inr (n1, w1)
         \<and> (\<not> collect_unmanaged_dirs cfg \<longrightarrow>
               (n, w') = (n1, w1) \<and> scans w' = scans w @ [Scandir (abs_path w wdir) es])
         \<and> (collect_unmanaged_dirs cfg \<longrightarrow>
               (\<exists>es2. iterdir w1 wdir = Inr es2
                  \<and> dir_loop cfg dry (build_unmanaged_exclude_paths lib cfg now w1 (resolve w1 wdir))
                       (expand_path lib (get_unmanaged_dir_target cfg) now) (sort es2)
                       (n1, listed w1 wdir es2) = Inr (n, w')
                  \<and> scans w' = scans w @ [Scandir (abs_path w wdir) es,
                                            Scandir (abs_path w1 wdir) es2])))"
proof -
  from ex have ex': "path_exists w (expand_path lib (watch_dir cfg) now)" by (simp add: wdir)
  obtain es where es: "iterdir w wdir = Inr es"
  proof (cases "iterdir w wdir")
    case (Inl e)
    with ex' run show ?thesis by (simp add: process_once_unlisted wdir)
  next
    case (Inr es)
    then show ?thesis by (rule that)
  qed
  then have es': "iterdir w (expand_path lib (watch_dir cfg) now) = Inr es" by (simp add: wdir)
  note po = process_once_listed [OF ex' es', where dry = dry, folded wdir]
  obtain n1 w1 where fl: "file_loop lib cfg now dry (sort es) (0, listed w wdir es) = Inr (n1, w1)"
  proof (cases "file_loop lib cfg now dry (sort es) (0, listed w wdir es)")
    case (Inl e)
    with run po show ?thesis by simp
  next
    case (Inr st)
    then show ?thesis by (cases st) (auto intro: that)
  qed
  from scans_file_loop [OF fl] have s1: "scans w1 = scans w @ [Scandir (abs_path w wdir) es]"
    by (simp add: scans_listed)
  have a: "\<not> collect_unmanaged_dirs cfg \<longrightarrow>
      (n, w') = (n1, w1) \<and> scans w' = scans w @ [Scandir (abs_path w wdir) es]"
  proof
    assume "\<not> collect_unmanaged_dirs cfg"
    with run po fl have "(n, w') = (n1, w1)" by simp
    with s1 show "(n, w') = (n1, w1) \<and> scans w' = scans w @ [Scandir (abs_path w wdir) es]"
      by simp
  qed
  have b: "collect_unmanaged_dirs cfg \<longrightarrow>
      (\<exists>es2. iterdir w1 wdir = Inr es2
         \<and> dir_loop cfg dry (build_unmanaged_exclude_paths lib cfg now w1 (resolve w1 wdir))
              (expand_path lib (get_unmanaged_dir_target cfg) now) (sort es2)
              (n1, listed w1 wdir es2) = Inr (n, w')
         \<and> scans w' = scans w @ [Scandir (abs_path w wdir) es, Scandir (abs_path w1 wdir) es2])"
  proof
    assume "collect_unmanaged_dirs cfg"
    with run po fl have dp: "dir_phase lib cfg now dry wdir (n1, w1) = Inr (n, w')" by simp
    obtain es2 where es2: "iterdir w1 wdir = Inr es2"
    proof (cases "iterdir w1 wdir")
      case (Inl e)
      with dp show ?thesis by (simp add: dir_phase_def scandir_eq Let_def)
    next
      case (Inr es2)
      then show ?thesis by (rule that)
    qed
    from dp have dl: "dir_loop cfg dry (build_unmanaged_exclude_paths lib cfg now w1 (resolve w1 wdir))
              (expand_path lib (get_unmanaged_dir_target cfg) now) (sort es2)
              (n1, listed w1 wdir es2) = Inr (n, w')"
      by (simp add: dir_phase_listed [OF es2])
    from scans_dir_loop [OF dl] s1
    have "scans w' = scans w @ [Scandir (abs_path w wdir) es, Scandir (abs_path w1 wdir) es2]"
      by (simp add: scans_listed)
    with es2 dl show "\<exists>es2. iterdir w1 wdir = Inr es2
         \<and> dir_loop cfg dry (build_unmanaged_exclude_paths lib cfg now w1 (resolve w1 wdir))
              (expand_path lib (get_unmanaged_dir_target cfg) now) (sort es2)
              (n1, listed w1 wdir es2) = Inr (n, w')
         \<and> scans w' = scans w @ [Scandir (abs_path w wdir) es, Scandir (abs_path w1 wdir) es2]"
      by blast
  qed
  have len: "length (scans w') = length (scans w) + (if collect_unmanaged_dirs cfg then 2 else 1)"
  proof (cases "collect_unmanaged_dirs cfg")
    case True
    with b obtain x y where "scans w' = scans w @ [x, y]" by blast
    with True show ?thesis by simp
  next
    case False
    with a have "scans w' = scans w @ [Scandir (abs_path w wdir) es]" by blast
    with False show ?thesis by simp
  qed
  from es fl a b have "\<exists>es n1 w1.
           iterdir w wdir = Inr es
         \<and> file_loop lib cfg now dry (sort es) (0, listed w wdir es) = Inr (n1, w1)
         \<and> (\<not> collect_unmanaged_dirs cfg \<longrightarrow>
               (n, w') = (n1, w1) \<and> scans w' = scans w @ [Scandir (abs_path w wdir) es])
         \<and> (collect_unmanaged_dirs cfg \<longrightarrow>
               (\<exists>es2. iterdir w1 wdir = Inr es2
                  \<and> dir_loop cfg dry (build_unmanaged_exclude_paths lib cfg now w1 (resolve w1 wdir))
                       (expand_path lib (get_unmanaged_dir_target cfg) now) (sort es2)
                       (n1, listed w1 wdir es2) = Inr (n, w')
                  \<and> scans w' = scans w @ [Scandir (abs_path w wdir) es,
                                            Scandir (abs_path w1 wdir) es2]))"
    by blast
  with len show ?thesis by (intro conjI)
qed

theorem listing_is_read_per_phase_witness:
  "path_exists inbox_world (expand_path sample_lib (watch_dir inbox_cfg) sample_dt)
   \<and> collect_unmanaged_dirs inbox_cfg
   \<and> length (scans (snd (projr inbox_real))) = length (scans inbox_world) + 2"
proof -
  let ?wdir = "expand_path sample_lib (watch_dir inbox_cfg) sample_dt"
  have ex: "path_exists inbox_world ?wdir" by code_simp
  have col: "collect_unmanaged_dirs inbox_cfg" by (simp add: inbox_cfg_def)
  have ok: "\<not> isl inbox_real" by code_simp
  have run: "process_once sample_lib inbox_cfg sample_dt False inbox_world
      = Inr (fst (projr inbox_real), snd (projr inbox_real))"
    using ok unfolding inbox_real_def [symmetric] by (rule Inr_projr)
  from listing_is_read_per_phase [OF run refl ex, THEN conjunct1] col
  have l: "length (scans (snd (projr inbox_real))) = length (scans inbox_world) + 2"
    by (simp only: if_True)
  from ex col l show ?thesis by (intro conjI)
qed

text \<open>
  The claim as stated fails on the sample pass: the listing is read twice, and the
  second listing shows the text file under the name the file phase gave it.
\<close>

theorem single_listing_counterexample:
  "scans (snd (projr inbox_real)) =
     [Scandir [''/'', ''dl'']
        [[''/'', ''dl'', ''!first.txt''], [''/'', ''dl'', ''.dorg_managed''],
         [''/'', ''dl'', ''.cache''], [''/'', ''dl'', ''docs''], [''/'', ''dl'', ''misc''],
         [''/'', ''dl'', ''new.txt'']],
      Scandir [''/'', ''dl'']
        [[''/'', ''dl'', ''!first_20261103.txt''], [''/'', ''dl'', ''.dorg_managed''],
         [''/'', ''dl'', ''.cache''], [''/'', ''dl'', ''docs''], [''/'', ''dl'', ''misc''],
         [''/'', ''dl'', ''new.txt'']]]"
  by code_simp

end
